theory Spec2Isabelle
  imports Main
begin

section \<open>JavaScript strings\<close>

text \<open>
  The parsers of this repository are TypeScript/JavaScript classes working on strings.
  A JavaScript string is modelled as a HOL \<open>string\<close>; a \<open>char\<close> stands for a UTF-16 code
  unit below 256. In that range the characters that \<open>String.prototype.trim\<close> removes
  and that the regular expression class \<open>\s\<close> matches are TAB, LF, VT, FF, CR, SPACE and
  NBSP (U+00A0); the characters that the regular expression \<open>.\<close> does not match (the
  line terminators) are LF and CR.
\<close>

definition isWhiteSpace :: "char \<Rightarrow> bool" where
  "isWhiteSpace c \<longleftrightarrow>
     c = CHR 0x09 \<or> c = CHR 0x0A \<or> c = CHR 0x0B \<or> c = CHR 0x0C \<or> c = CHR 0x0D \<or>
     c = CHR 0x20 \<or> c = CHR 0xA0"

definition isLineTerminator :: "char \<Rightarrow> bool" where
  "isLineTerminator c \<longleftrightarrow> c = CHR 0x0A \<or> c = CHR 0x0D"

definition isDigit :: "char \<Rightarrow> bool" where
  "isDigit c \<longleftrightarrow> (48::nat) \<le> of_char c \<and> of_char c \<le> (57::nat)"

text \<open>\<open>s.trim()\<close>\<close>

definition trim :: "string \<Rightarrow> string" where
  "trim s = rev (dropWhile isWhiteSpace (rev (dropWhile isWhiteSpace s)))"

text \<open>\<open>s.startsWith(p)\<close>, \<open>s.endsWith(p)\<close>, \<open>s.includes(p)\<close>\<close>

definition startsWith :: "string \<Rightarrow> string \<Rightarrow> bool" where
  "startsWith s p \<longleftrightarrow> take (length p) s = p"

definition endsWith :: "string \<Rightarrow> string \<Rightarrow> bool" where
  "endsWith s p \<longleftrightarrow> length p \<le> length s \<and> drop (length s - length p) s = p"

fun includes_str :: "string \<Rightarrow> string \<Rightarrow> bool" where
  "includes_str [] p = (p = [])"
| "includes_str (c # cs) p = (startsWith (c # cs) p \<or> includes_str cs p)"

text \<open>\<open>s.indexOf(c)\<close> for a one-character pattern; \<open>None\<close> stands for the result -1.\<close>

fun indexOf :: "string \<Rightarrow> char \<Rightarrow> nat option" where
  "indexOf [] c = None"
| "indexOf (x # xs) c = (if x = c then Some 0 else map_option Suc (indexOf xs c))"

text \<open>
  \<open>s.slice(start, end)\<close> and \<open>s.slice(start)\<close>: a negative index counts from the end of
  the string, and both indices are clamped to the string.
\<close>

definition sliceIndex :: "nat \<Rightarrow> int \<Rightarrow> nat" where
  "sliceIndex len k = (if k < 0 then nat (max (int len + k) 0) else min (nat k) len)"

definition slice :: "string \<Rightarrow> int \<Rightarrow> int \<Rightarrow> string" where
  "slice s start end' =
     (let from = sliceIndex (length s) start; to = sliceIndex (length s) end'
      in take (to - from) (drop from s))"

definition sliceFrom :: "string \<Rightarrow> int \<Rightarrow> string" where
  "sliceFrom s start = drop (sliceIndex (length s) start) s"

text \<open>\<open>s.split(sep)\<close> for a one-character separator, and \<open>parts.join(sep)\<close>.\<close>

fun js_split :: "char \<Rightarrow> string \<Rightarrow> string list" where
  "js_split sep [] = [[]]"
| "js_split sep (c # cs) =
     (if c = sep then [] # js_split sep cs
      else (case js_split sep cs of [] \<Rightarrow> [[c]] | p # ps \<Rightarrow> (c # p) # ps))"

fun js_join :: "string \<Rightarrow> string list \<Rightarrow> string" where
  "js_join sep [] = []"
| "js_join sep [x] = x"
| "js_join sep (x # y # ys) = x @ sep @ js_join sep (y # ys)"

text \<open>
  \<open>parseInt(s, 10)\<close>: leading white space is skipped, one sign is read, and the longest
  prefix of decimal digits is the value; \<open>None\<close> stands for NaN (no digit). The result is
  only compared with string lengths and used as a slice index, where the rounding of a
  huge value to a double changes nothing, so the integer is kept exact.
\<close>

definition digitsVal :: "string \<Rightarrow> int" where
  "digitsVal z = foldl (\<lambda>a c. 10 * a + (of_char c - 48)) 0 z"

definition parseInt10 :: "string \<Rightarrow> int option" where
  "parseInt10 s =
     (let t = dropWhile isWhiteSpace s;
          negative = (t \<noteq> [] \<and> hd t = CHR ''-'');
          u = (if t \<noteq> [] \<and> (hd t = CHR ''+'' \<or> hd t = CHR ''-'') then tl t else t);
          z = takeWhile isDigit u
      in if z = [] then None
         else Some ((if negative then - 1 else 1) * digitsVal z))"

section \<open>The data model\<close>

text \<open>
  \<open>Value = string | Block | List | Table | UseDirective\<close>. A block is a plain JavaScript
  object (\<open>const block: Block = {}\<close>); it is modelled by the list of its own properties
  in the order in which the object enumerates them (\<open>Object.keys\<close>, \<open>for ... in\<close>,
  \<open>JSON.stringify\<close>).
\<close>

datatype Value =
    Scalar string
  | Block "(string \<times> Value) list"
  | List "Value list"
  | Table "Value list" "Value list list"
  | UseDirective "string list"

record Node =
  key :: string
  typeAnnotation :: "string option"
  val :: Value

datatype Document = Document "Node list"

fun nodes :: "Document \<Rightarrow> Node list" where
  "nodes (Document ns) = ns"

definition isEmpty :: "Document \<Rightarrow> bool" where
  "isEmpty d \<longleftrightarrow> length (nodes d) = 0"

datatype ParseError = ParseError string

subsection \<open>Property assignment on a plain object\<close>

text \<open>
  \<open>obj[k] = v\<close> on an object created by \<open>{}\<close>. An ordinary object enumerates its own
  string keys with the array indices first, in ascending numeric order, and the other
  keys after them in the order of their creation (ECMA-262, OrdinaryOwnPropertyKeys).
  An array index is the canonical decimal form of an integer below \<open>2^32 - 1\<close>.
  Assigning to an existing key replaces its value and keeps its place. The key
  \<open>__proto__\<close> is the accessor inherited from \<open>Object.prototype\<close>: assigning to it
  creates no own property (a string is ignored, an object becomes the prototype; the
  prototype chain is not part of the model).
\<close>

definition isArrayIndex :: "string \<Rightarrow> bool" where
  "isArrayIndex k \<longleftrightarrow>
     k \<noteq> [] \<and> list_all isDigit k \<and> (k = ''0'' \<or> hd k \<noteq> CHR ''0'') \<and>
     digitsVal k < 4294967295"

fun insertIndexKey :: "string \<Rightarrow> 'v \<Rightarrow> (string \<times> 'v) list \<Rightarrow> (string \<times> 'v) list" where
  "insertIndexKey k v [] = [(k, v)]"
| "insertIndexKey k v ((k', v') # ps) =
     (if isArrayIndex k' \<and> digitsVal k' < digitsVal k then (k', v') # insertIndexKey k v ps
      else (k, v) # (k', v') # ps)"

definition obj_set :: "(string \<times> 'v) list \<Rightarrow> string \<Rightarrow> 'v \<Rightarrow> (string \<times> 'v) list" where
  "obj_set obj k v =
     (if k = ''__proto__'' then obj
      else if k \<in> set (map fst obj) then map (\<lambda>(k', v'). if k' = k then (k', v) else (k', v')) obj
      else if isArrayIndex k then insertIndexKey k v obj
      else obj @ [(k, v)])"

section \<open>Functions shared by both versions of class Parser\<close>

text \<open>
  The repository holds two versions of \<open>class Parser\<close>: the one of \<open>src/up.ts\<close>, and an
  extended one (directives, line-oriented headers, quote stripping, inline blocks). The
  private methods of this section have the same text in both.
\<close>

text \<open>
  \<open>line.match(/^(\S+)\s*(.*)$/)\<close>. The key is a run of characters that are not white
  space, starting the line; \<open>\s*\<close> takes the white space after it and \<open>(.*)\<close> the rest,
  which must reach the end of the input (\<open>$\<close> without the \<open>m\<close> flag) and cannot hold a
  line terminator (\<open>.\<close> without the \<open>s\<close> flag). The quantifiers are greedy, and giving back
  characters of the key or of the white space only makes the rest longer, so the match
  with the longest key and the longest white space is the only candidate
  (lemma \<open>matchKeyValue_complete\<close>). The result is the pair of the two groups, \<open>None\<close>
  when there is no match.
\<close>

definition matchKeyValue :: "string \<Rightarrow> (string \<times> string) option" where
  "matchKeyValue line =
     (let k = takeWhile (\<lambda>c. \<not> isWhiteSpace c) line;
          r = dropWhile isWhiteSpace (dropWhile (\<lambda>c. \<not> isWhiteSpace c) line)
      in if k = [] \<or> list_ex isLineTerminator r then None else Some (k, r))"

text \<open>\<open>#parseKeyAndType(keyPart)\<close>\<close>

definition parseKeyAndType :: "string \<Rightarrow> string \<times> string option" where
  "parseKeyAndType keyPart =
     (case indexOf keyPart CHR ''!'' of
        None \<Rightarrow> (keyPart, None)
      | Some idx \<Rightarrow> (slice keyPart 0 (int idx), Some (sliceFrom keyPart (int idx + 1))))"

text \<open>\<open>#parseInlineList(s)\<close>: the elements of the returned array are strings.\<close>

definition parseInlineList :: "string \<Rightarrow> Value list" where
  "parseInlineList s =
     (let content = trim s;
          content = slice content 1 (- 1)
      in if trim content = [] then []
         else map (\<lambda>item. Scalar (trim item)) (js_split CHR '','' content))"

text \<open>\<open>#dedent(text, amount)\<close>\<close>

definition dedent :: "string \<Rightarrow> int \<Rightarrow> string" where
  "dedent text amount =
     js_join [CHR 0x0A]
       (map (\<lambda>line. if int (length line) \<ge> amount then sliceFrom line amount else line)
          (js_split (CHR 0x0A) text))"

text \<open>
  \<open>#parseMultiline(lines, startIndex, typeAnnotation)\<close>. The loop stops without
  consuming the line at \<open>if (!line) break\<close>: the empty string is falsy. (The parameter
  \<open>typeAnnotation\<close> is written \<open>typeAnn\<close> in the functions below, the name itself being
  the field of \<open>Node\<close>.)
\<close>

function parseMultiline_loop :: "string list \<Rightarrow> nat \<Rightarrow> string list \<Rightarrow> string list \<times> nat" where
  "parseMultiline_loop lines i content =
     (if i < length lines then
        (let line = lines ! i in
         if line = [] then (content, i)
         else if trim line = ''```'' then (content, i + 1)
         else parseMultiline_loop lines (i + 1) (content @ [line]))
      else (content, i))"
  by pat_completeness auto
termination
  by (relation "measure (\<lambda>(lines, i, content). length lines - i)") auto

declare parseMultiline_loop.simps [simp del]

definition parseMultiline :: "string list \<Rightarrow> nat \<Rightarrow> string option \<Rightarrow> Value \<times> nat" where
  "parseMultiline lines startIndex typeAnn =
     (case parseMultiline_loop lines startIndex [] of
        (content, i) \<Rightarrow>
          (let text = js_join [CHR 0x0A] content;
               text = (case typeAnn of
                         None \<Rightarrow> text
                       | Some t \<Rightarrow>
                           if t = [] then text
                           else (case parseInt10 t of
                                   None \<Rightarrow> text
                                 | Some dedentAmount \<Rightarrow> dedent text dedentAmount))
           in (Scalar text, i)))"

lemma pair_eq_sndD: "(a, b) = p \<Longrightarrow> b = snd p"
  by auto

lemma parseMultiline_loop_ge: "i \<le> snd (parseMultiline_loop lines i content)"
proof (induction lines i content rule: parseMultiline_loop.induct)
  case (1 lines i content)
  show ?case
    using 1 by (subst parseMultiline_loop.simps) (auto simp: Let_def intro: Suc_leD)
qed

lemma parseMultiline_ge: "i \<le> snd (parseMultiline lines i t)"
proof -
  obtain c j where e: "parseMultiline_loop lines i [] = (c, j)"
    by (cases "parseMultiline_loop lines i []")
  with parseMultiline_loop_ge [of i lines "[]"] have "i \<le> j" by simp
  with e show ?thesis by (simp add: parseMultiline_def Let_def)
qed

section \<open>The class Parser of src/up.ts\<close>

text \<open>
  \<open>#splitKeyValue(line)\<close> of \<open>src/up.ts\<close> returns the two groups of the match as they
  are: there is no line-oriented form and no quote is stripped.
\<close>

definition up_splitKeyValue :: "string \<Rightarrow> string \<times> string" where
  "up_splitKeyValue line =
     (case matchKeyValue line of
        None \<Rightarrow> (trim line, [])
      | Some (keyPart, valPart) \<Rightarrow> (keyPart, valPart))"

text \<open>
  \<open>#parseLine\<close>, \<open>#parseValue\<close>, \<open>#parseBlock\<close> and \<open>#parseList\<close> of \<open>src/up.ts\<close>, with the
  loops of the last two as \<open>up_parseBlock_loop\<close> and \<open>up_parseList_loop\<close>. None of them
  throws, so the \<open>try ... catch\<close> of \<open>parseDocument\<close> has nothing to catch and the
  document is always returned.
\<close>

function up_parseLine :: "string list \<Rightarrow> nat \<Rightarrow> Node \<times> nat"
  and up_parseValue :: "string list \<Rightarrow> nat \<Rightarrow> string \<Rightarrow> string option \<Rightarrow> Value \<times> nat"
  and up_parseBlock :: "string list \<Rightarrow> nat \<Rightarrow> Value \<times> nat"
  and up_parseBlock_loop :: "string list \<Rightarrow> nat \<Rightarrow> (string \<times> Value) list \<Rightarrow> Value \<times> nat"
  and up_parseList :: "string list \<Rightarrow> nat \<Rightarrow> Value \<times> nat"
  and up_parseList_loop :: "string list \<Rightarrow> nat \<Rightarrow> Value list \<Rightarrow> Value \<times> nat"
where
  "up_parseLine lines startIndex =
     (let line = (if startIndex < length lines then lines ! startIndex else []) in
      case up_splitKeyValue line of
        (keyPart, valPart) \<Rightarrow>
          (case parseKeyAndType keyPart of
             (k, typeAnn) \<Rightarrow>
               (case up_parseValue lines startIndex valPart typeAnn of
                  (v, nextIndex) \<Rightarrow>
                    (\<lparr>key = k, typeAnnotation = typeAnn, val = v\<rparr>, nextIndex))))"
| "up_parseValue lines startIndex valPart typeAnn =
     (if startsWith valPart ''```'' then parseMultiline lines (startIndex + 1) typeAnn
      else if valPart = ''{'' then up_parseBlock lines (startIndex + 1)
      else if valPart = ''['' then up_parseList lines (startIndex + 1)
      else if startsWith valPart ''['' \<and> endsWith valPart '']'' then
        (List (parseInlineList valPart), startIndex + 1)
      else (Scalar valPart, startIndex + 1))"
| "up_parseBlock lines startIndex = up_parseBlock_loop lines startIndex []"
| "up_parseBlock_loop lines i block =
     (if i < length lines then
        (let line = lines ! i in
         if line = [] then (Block block, i)
         else (let trimmed = trim line in
               if trimmed = ''}'' then (Block block, i + 1)
               else if trimmed = [] \<or> startsWith trimmed ''#'' then up_parseBlock_loop lines (i + 1) block
               else (case up_parseLine lines i of
                       (node, nextIndex) \<Rightarrow>
                         up_parseBlock_loop lines nextIndex (obj_set block (key node) (val node)))))
      else (Block block, i))"
| "up_parseList lines startIndex = up_parseList_loop lines startIndex []"
| "up_parseList_loop lines i list =
     (if i < length lines then
        (let line = lines ! i in
         if line = [] then (List list, i)
         else (let trimmed = trim line in
               if trimmed = '']'' then (List list, i + 1)
               else if trimmed = [] \<or> startsWith trimmed ''#'' then up_parseList_loop lines (i + 1) list
               else if startsWith trimmed ''['' \<and> endsWith trimmed '']'' then
                 up_parseList_loop lines (i + 1) (list @ [List (parseInlineList trimmed)])
               else if trimmed = ''{'' then
                 (case up_parseBlock lines (i + 1) of
                    (v, nextIndex) \<Rightarrow> up_parseList_loop lines nextIndex (list @ [v]))
               else up_parseList_loop lines (i + 1) (list @ [Scalar trimmed])))
      else (List list, i))"
  by pat_completeness auto

lemma up_parse_dom_next:
  "up_parseLine_up_parseValue_up_parseBlock_up_parseBlock_loop_up_parseList_up_parseList_loop_dom (Inl (Inl (lines, i)))
     \<Longrightarrow> i < snd (up_parseLine lines i)"
  "up_parseLine_up_parseValue_up_parseBlock_up_parseBlock_loop_up_parseList_up_parseList_loop_dom (Inl (Inr (Inl (lines, i, valPart, typeAnn))))
     \<Longrightarrow> i < snd (up_parseValue lines i valPart typeAnn)"
  "up_parseLine_up_parseValue_up_parseBlock_up_parseBlock_loop_up_parseList_up_parseList_loop_dom (Inl (Inr (Inr (lines, i))))
     \<Longrightarrow> i \<le> snd (up_parseBlock lines i)"
  "up_parseLine_up_parseValue_up_parseBlock_up_parseBlock_loop_up_parseList_up_parseList_loop_dom (Inr (Inl (lines, i, block)))
     \<Longrightarrow> i \<le> snd (up_parseBlock_loop lines i block)"
  "up_parseLine_up_parseValue_up_parseBlock_up_parseBlock_loop_up_parseList_up_parseList_loop_dom (Inr (Inr (Inl (lines, i))))
     \<Longrightarrow> i \<le> snd (up_parseList lines i)"
  "up_parseLine_up_parseValue_up_parseBlock_up_parseBlock_loop_up_parseList_up_parseList_loop_dom (Inr (Inr (Inr (lines, i, list))))
     \<Longrightarrow> i \<le> snd (up_parseList_loop lines i list)"
proof (induct rule: up_parseLine_up_parseValue_up_parseBlock_up_parseBlock_loop_up_parseList_up_parseList_loop.pinduct)
  case (1 lines startIndex)
  then show ?case
    by (auto simp: up_parseLine.psimps Let_def split: prod.splits)
next
  case (2 lines startIndex valPart typeAnn)
  then show ?case
    using parseMultiline_ge [of "startIndex + 1" lines typeAnn]
    by (auto simp: up_parseValue.psimps)
next
  case (3 lines startIndex)
  then show ?case by (simp add: up_parseBlock.psimps)
next
  case (4 lines i block)
  show ?case
  proof (cases "i < length lines \<and> lines ! i \<noteq> [] \<and> trim (lines ! i) \<noteq> ''}''")
    case False
    then show ?thesis using 4(1) by (subst up_parseBlock_loop.psimps) (auto simp: Let_def)
  next
    case True
    show ?thesis
    proof (cases "trim (lines ! i) = [] \<or> startsWith (trim (lines ! i)) ''#''")
      case skip: True
      have "i + 1 \<le> snd (up_parseBlock_loop lines (i + 1) block)"
        using 4(2) [OF _ refl _ refl] True skip by blast
      then show ?thesis
        using True skip 4(1) by (subst up_parseBlock_loop.psimps) (auto simp: Let_def)
    next
      case noskip: False
      obtain node nextIndex where pl: "up_parseLine lines i = (node, nextIndex)"
        by (cases "up_parseLine lines i")
      have a: "i < nextIndex"
        using 4(3) [OF _ refl _ refl] True noskip pl by auto
      have b: "nextIndex \<le> snd (up_parseBlock_loop lines nextIndex (obj_set block (key node) (val node)))"
        using 4(4) [OF _ refl _ refl _ _ pl [symmetric]] True noskip by blast
      show ?thesis
        using True noskip 4(1) a b pl by (subst up_parseBlock_loop.psimps) (auto simp: Let_def)
    qed
  qed
next
  case (5 lines startIndex)
  then show ?case by (simp add: up_parseList.psimps)
next
  case (6 lines i list)
  show ?case
  proof (cases "i < length lines \<and> lines ! i \<noteq> [] \<and> trim (lines ! i) \<noteq> '']''")
    case False
    then show ?thesis using 6(1) by (subst up_parseList_loop.psimps) (auto simp: Let_def)
  next
    case True
    let ?t = "trim (lines ! i)"
    show ?thesis
    proof (cases "?t = [] \<or> startsWith ?t ''#''")
      case skip: True
      have "i + 1 \<le> snd (up_parseList_loop lines (i + 1) list)"
        using 6(2) [OF _ refl _ refl] True skip by blast
      then show ?thesis
        using True skip 6(1) by (subst up_parseList_loop.psimps) (auto simp: Let_def)
    next
      case noskip: False
      show ?thesis
      proof (cases "startsWith ?t ''['' \<and> endsWith ?t '']''")
        case inl: True
        have "i + 1 \<le> snd (up_parseList_loop lines (i + 1) (list @ [List (parseInlineList ?t)]))"
          using 6(3) [OF _ refl _ refl] True noskip inl by blast
        then show ?thesis
          using True noskip inl 6(1) by (subst up_parseList_loop.psimps) (auto simp: Let_def)
      next
        case noinl: False
        show ?thesis
        proof (cases "?t = ''{''")
          case blk: True
          obtain v nextIndex where pb: "up_parseBlock lines (i + 1) = (v, nextIndex)"
            by (cases "up_parseBlock lines (i + 1)")
          have a: "i + 1 \<le> nextIndex"
            using 6(4) [OF _ refl _ refl] True noskip noinl blk pb by auto
          have b: "nextIndex \<le> snd (up_parseList_loop lines nextIndex (list @ [v]))"
            using 6(5) [OF _ refl _ refl _ _ _ _ pb [symmetric]] True noskip noinl blk by blast
          show ?thesis
            using True noskip noinl blk 6(1) a b pb
            by (subst up_parseList_loop.psimps) (auto simp: Let_def)
        next
          case noblk: False
          have "i + 1 \<le> snd (up_parseList_loop lines (i + 1) (list @ [Scalar ?t]))"
            using 6(6) [OF _ refl _ refl] True noskip noinl noblk by blast
          then show ?thesis
            using True noskip noinl noblk 6(1) by (subst up_parseList_loop.psimps) (auto simp: Let_def)
        qed
      qed
    qed
  qed
qed

lemma up_parse_dom_all:
  "All up_parseLine_up_parseValue_up_parseBlock_up_parseBlock_loop_up_parseList_up_parseList_loop_dom"
proof (relation "measure (\<lambda>x. case x of
          Inl (Inl (lines, i)) \<Rightarrow> 4 * (length lines - (i + 1)) + 3
        | Inl (Inr (Inl (lines, i, valPart, typeAnn))) \<Rightarrow> 4 * (length lines - (i + 1)) + 2
        | Inl (Inr (Inr (lines, i))) \<Rightarrow> 4 * (length lines - i) + 1
        | Inr (Inl (lines, i, block)) \<Rightarrow> 4 * (length lines - i)
        | Inr (Inr (Inl (lines, i))) \<Rightarrow> 4 * (length lines - i) + 1
        | Inr (Inr (Inr (lines, i, list))) \<Rightarrow> 4 * (length lines - i))", goal_cases)
  case 8
  then show ?case
    by (auto dest!: pair_eq_sndD dest: up_parse_dom_next(1))
next
  case 13
  then show ?case
    by (auto dest!: pair_eq_sndD dest: up_parse_dom_next(3))
qed simp_all

termination up_parseLine
  by (rule up_parse_dom_all)

lemmas up_parse_next = up_parse_dom_next [OF spec [OF up_parse_dom_all]]

lemma up_parseLine_measure:
  "i < length lines \<Longrightarrow> length lines - snd (up_parseLine lines i) < length lines - i"
  using up_parse_next(1) [of i lines] by arith

declare up_parseLine.simps [simp del] up_parseValue.simps [simp del] up_parseBlock.simps [simp del]
  up_parseBlock_loop.simps [simp del] up_parseList.simps [simp del] up_parseList_loop.simps [simp del]

text \<open>\<open>parseDocument(input)\<close> of \<open>src/up.ts\<close>, and \<open>parse\<close>.\<close>

function up_parseDocument_loop :: "string list \<Rightarrow> nat \<Rightarrow> Node list \<Rightarrow> Document" where
  "up_parseDocument_loop lines i ns =
     (if i < length lines then
        (let line = lines ! i in
         if line = [] then up_parseDocument_loop lines (i + 1) ns
         else (let trimmed = trim line in
               if trimmed = [] \<or> startsWith trimmed ''#'' then up_parseDocument_loop lines (i + 1) ns
               else (case up_parseLine lines i of
                       (node, nextIndex) \<Rightarrow> up_parseDocument_loop lines nextIndex (ns @ [node]))))
      else Document ns)"
  by pat_completeness auto
termination
proof (relation "measure (\<lambda>(lines, i, ns). length lines - i)", goal_cases)
  case 4
  then show ?case
    by (auto dest!: pair_eq_sndD simp: up_parseLine_measure)
qed simp_all

declare up_parseDocument_loop.simps [simp del]

definition up_parseDocument :: "string \<Rightarrow> Document" where
  "up_parseDocument input = up_parseDocument_loop (js_split (CHR 0x0A) input) 0 []"

definition up_parse :: "string \<Rightarrow> Document" where
  "up_parse input = up_parseDocument input"

section \<open>The extended class Parser (directives, line-oriented headers)\<close>

text \<open>\<open>#stripSurroundingQuotes(s)\<close>\<close>

definition stripSurroundingQuotes :: "string \<Rightarrow> string" where
  "stripSurroundingQuotes s =
     (if length s \<ge> 2 \<and> startsWith s [CHR 0x22] \<and> endsWith s [CHR 0x22] then slice s 1 (- 1)
      else s)"

text \<open>
  \<open>#splitKeyValue(line)\<close>, returning \<open>{ keyPart, valPart, lineOriented }\<close>. Here
  \<open>valPart.indexOf('#')\<close> is the first \<open>#\<close> of the remainder, wherever it stands.
\<close>

definition splitKeyValue :: "string \<Rightarrow> string \<times> string \<times> bool" where
  "splitKeyValue line =
     (case matchKeyValue line of
        None \<Rightarrow> (trim line, [], False)
      | Some (keyPart, valPart) \<Rightarrow>
          if endsWith keyPart '':'' \<and> \<not> includes_str keyPart ''://'' then
            (let keyPart = slice keyPart 0 (- 1);
                 valPart = trim valPart;
                 valPart = (case indexOf valPart CHR ''#'' of
                              None \<Rightarrow> valPart
                            | Some commentIdx \<Rightarrow> trim (slice valPart 0 (int commentIdx)));
                 valPart = stripSurroundingQuotes valPart
             in (keyPart, valPart, True))
          else (keyPart, stripSurroundingQuotes valPart, False))"

text \<open>\<open>#parseInlineBlock(s)\<close>\<close>

definition parseInlineBlock :: "string \<Rightarrow> (string \<times> Value) list" where
  "parseInlineBlock s =
     (let content = trim s;
          content = trim (slice content 1 (- 1))
      in if content = [] then []
         else foldl
                (\<lambda>block part.
                   (let trimmed = trim part in
                    if trimmed = [] then block
                    else (case splitKeyValue trimmed of
                            (keyPart, valPart, lineOriented) \<Rightarrow>
                              (case parseKeyAndType keyPart of
                                 (k, typeAnn) \<Rightarrow> obj_set block k (Scalar valPart)))))
                [] (js_split CHR '','' content))"

text \<open>
  \<open>#parseLine\<close>, \<open>#parseValue\<close>, \<open>#parseBlock\<close> and \<open>#parseList\<close> call each other. The
  \<open>while\<close> loops of \<open>#parseBlock\<close> and \<open>#parseList\<close> are the functions \<open>parseBlock_loop\<close>
  and \<open>parseList_loop\<close>, whose last argument is the block or list built so far.
  \<open>lines[startIndex] || ''\<close> is the empty string past the end of the array. None of
  them throws, so the \<open>try ... catch\<close> around \<open>#parseLine\<close> in \<open>parseDocument\<close> has
  nothing to catch.
\<close>

function parseLine :: "string list \<Rightarrow> nat \<Rightarrow> Node \<times> nat"
  and parseValue :: "string list \<Rightarrow> nat \<Rightarrow> string \<Rightarrow> string option \<Rightarrow> Value \<times> nat"
  and parseBlock :: "string list \<Rightarrow> nat \<Rightarrow> Value \<times> nat"
  and parseBlock_loop :: "string list \<Rightarrow> nat \<Rightarrow> (string \<times> Value) list \<Rightarrow> Value \<times> nat"
  and parseList :: "string list \<Rightarrow> nat \<Rightarrow> Value \<times> nat"
  and parseList_loop :: "string list \<Rightarrow> nat \<Rightarrow> Value list \<Rightarrow> Value \<times> nat"
where
  "parseLine lines startIndex =
     (let line = (if startIndex < length lines then lines ! startIndex else []) in
      case splitKeyValue line of
        (keyPart, valPart, lineOriented) \<Rightarrow>
          (case parseKeyAndType keyPart of
             (k, typeAnn) \<Rightarrow>
               if typeAnn = Some ''quoted'' then
                 (let quotedVal = valPart;
                      quotedVal = (if \<not> startsWith quotedVal [CHR 0x22] \<or> \<not> endsWith quotedVal [CHR 0x22]
                                   then [CHR 0x22] @ quotedVal @ [CHR 0x22] else quotedVal)
                  in (\<lparr>key = k, typeAnnotation = Some ''string'', val = Scalar quotedVal\<rparr>,
                      startIndex + 1))
               else (case parseValue lines startIndex valPart typeAnn of
                       (v, nextIndex) \<Rightarrow>
                         (\<lparr>key = k, typeAnnotation = typeAnn, val = v\<rparr>, nextIndex))))"
| "parseValue lines startIndex valPart typeAnn =
     (if startsWith valPart ''```'' then parseMultiline lines (startIndex + 1) typeAnn
      else if valPart = ''{'' then parseBlock lines (startIndex + 1)
      else if valPart = ''['' then parseList lines (startIndex + 1)
      else if startsWith valPart ''['' \<and> endsWith valPart '']'' then
        (List (parseInlineList valPart), startIndex + 1)
      else if startsWith valPart ''{'' \<and> includes_str valPart ''}'' then
        (Block (parseInlineBlock valPart), startIndex + 1)
      else (Scalar valPart, startIndex + 1))"
| "parseBlock lines startIndex = parseBlock_loop lines startIndex []"
| "parseBlock_loop lines i block =
     (if i < length lines then
        (let line = lines ! i in
         if line = [] then (Block block, i)
         else (let trimmed = trim line in
               if trimmed = ''}'' then (Block block, i + 1)
               else if trimmed = [] \<or> startsWith trimmed ''#'' then parseBlock_loop lines (i + 1) block
               else (case parseLine lines i of
                       (node, nextIndex) \<Rightarrow>
                         parseBlock_loop lines nextIndex (obj_set block (key node) (val node)))))
      else (Block block, i))"
| "parseList lines startIndex = parseList_loop lines startIndex []"
| "parseList_loop lines i list =
     (if i < length lines then
        (let line = lines ! i in
         if line = [] then (List list, i)
         else (let trimmed = trim line in
               if trimmed = '']'' then (List list, i + 1)
               else if trimmed = [] \<or> startsWith trimmed ''#'' then parseList_loop lines (i + 1) list
               else if startsWith trimmed ''['' \<and> endsWith trimmed '']'' then
                 parseList_loop lines (i + 1) (list @ [List (parseInlineList trimmed)])
               else if trimmed = ''{'' then
                 (case parseBlock lines (i + 1) of
                    (v, nextIndex) \<Rightarrow> parseList_loop lines nextIndex (list @ [v]))
               else parseList_loop lines (i + 1) (list @ [Scalar trimmed])))
      else (List list, i))"
  by pat_completeness auto

text \<open>
  Termination: every call moves forward in \<open>lines\<close>, which for the calls after a nested
  \<open>#parseLine\<close> or \<open>#parseBlock\<close> needs that the index they return is past their own.
\<close>

lemma parse_dom_next:
  "parseLine_parseValue_parseBlock_parseBlock_loop_parseList_parseList_loop_dom (Inl (Inl (lines, i)))
     \<Longrightarrow> i < snd (parseLine lines i)"
  "parseLine_parseValue_parseBlock_parseBlock_loop_parseList_parseList_loop_dom (Inl (Inr (Inl (lines, i, valPart, typeAnn))))
     \<Longrightarrow> i < snd (parseValue lines i valPart typeAnn)"
  "parseLine_parseValue_parseBlock_parseBlock_loop_parseList_parseList_loop_dom (Inl (Inr (Inr (lines, i))))
     \<Longrightarrow> i \<le> snd (parseBlock lines i)"
  "parseLine_parseValue_parseBlock_parseBlock_loop_parseList_parseList_loop_dom (Inr (Inl (lines, i, block)))
     \<Longrightarrow> i \<le> snd (parseBlock_loop lines i block)"
  "parseLine_parseValue_parseBlock_parseBlock_loop_parseList_parseList_loop_dom (Inr (Inr (Inl (lines, i))))
     \<Longrightarrow> i \<le> snd (parseList lines i)"
  "parseLine_parseValue_parseBlock_parseBlock_loop_parseList_parseList_loop_dom (Inr (Inr (Inr (lines, i, list))))
     \<Longrightarrow> i \<le> snd (parseList_loop lines i list)"
proof (induct rule: parseLine_parseValue_parseBlock_parseBlock_loop_parseList_parseList_loop.pinduct)
  case (1 lines startIndex)
  then show ?case
    by (auto simp: parseLine.psimps Let_def split: prod.splits)
next
  case (2 lines startIndex valPart typeAnn)
  then show ?case
    using parseMultiline_ge [of "startIndex + 1" lines typeAnn]
    by (auto simp: parseValue.psimps)
next
  case (3 lines startIndex)
  then show ?case by (simp add: parseBlock.psimps)
next
  case (4 lines i block)
  show ?case
  proof (cases "i < length lines \<and> lines ! i \<noteq> [] \<and> trim (lines ! i) \<noteq> ''}''")
    case False
    then show ?thesis using 4(1) by (subst parseBlock_loop.psimps) (auto simp: Let_def)
  next
    case True
    show ?thesis
    proof (cases "trim (lines ! i) = [] \<or> startsWith (trim (lines ! i)) ''#''")
      case skip: True
      have "i + 1 \<le> snd (parseBlock_loop lines (i + 1) block)"
        using 4(2) [OF _ refl _ refl] True skip by blast
      then show ?thesis
        using True skip 4(1) by (subst parseBlock_loop.psimps) (auto simp: Let_def)
    next
      case noskip: False
      obtain node nextIndex where pl: "parseLine lines i = (node, nextIndex)"
        by (cases "parseLine lines i")
      have a: "i < nextIndex"
        using 4(3) [OF _ refl _ refl] True noskip pl by auto
      have b: "nextIndex \<le> snd (parseBlock_loop lines nextIndex (obj_set block (key node) (val node)))"
        using 4(4) [OF _ refl _ refl _ _ pl [symmetric]] True noskip by blast
      show ?thesis
        using True noskip 4(1) a b pl by (subst parseBlock_loop.psimps) (auto simp: Let_def)
    qed
  qed
next
  case (5 lines startIndex)
  then show ?case by (simp add: parseList.psimps)
next
  case (6 lines i list)
  show ?case
  proof (cases "i < length lines \<and> lines ! i \<noteq> [] \<and> trim (lines ! i) \<noteq> '']''")
    case False
    then show ?thesis using 6(1) by (subst parseList_loop.psimps) (auto simp: Let_def)
  next
    case True
    let ?t = "trim (lines ! i)"
    show ?thesis
    proof (cases "?t = [] \<or> startsWith ?t ''#''")
      case skip: True
      have "i + 1 \<le> snd (parseList_loop lines (i + 1) list)"
        using 6(2) [OF _ refl _ refl] True skip by blast
      then show ?thesis
        using True skip 6(1) by (subst parseList_loop.psimps) (auto simp: Let_def)
    next
      case noskip: False
      show ?thesis
      proof (cases "startsWith ?t ''['' \<and> endsWith ?t '']''")
        case inl: True
        have "i + 1 \<le> snd (parseList_loop lines (i + 1) (list @ [List (parseInlineList ?t)]))"
          using 6(3) [OF _ refl _ refl] True noskip inl by blast
        then show ?thesis
          using True noskip inl 6(1) by (subst parseList_loop.psimps) (auto simp: Let_def)
      next
        case noinl: False
        show ?thesis
        proof (cases "?t = ''{''")
          case blk: True
          obtain v nextIndex where pb: "parseBlock lines (i + 1) = (v, nextIndex)"
            by (cases "parseBlock lines (i + 1)")
          have a: "i + 1 \<le> nextIndex"
            using 6(4) [OF _ refl _ refl] True noskip noinl blk pb by auto
          have b: "nextIndex \<le> snd (parseList_loop lines nextIndex (list @ [v]))"
            using 6(5) [OF _ refl _ refl _ _ _ _ pb [symmetric]] True noskip noinl blk by blast
          show ?thesis
            using True noskip noinl blk 6(1) a b pb
            by (subst parseList_loop.psimps) (auto simp: Let_def)
        next
          case noblk: False
          have "i + 1 \<le> snd (parseList_loop lines (i + 1) (list @ [Scalar ?t]))"
            using 6(6) [OF _ refl _ refl] True noskip noinl noblk by blast
          then show ?thesis
            using True noskip noinl noblk 6(1) by (subst parseList_loop.psimps) (auto simp: Let_def)
        qed
      qed
    qed
  qed
qed

lemma parse_dom_all:
  "All parseLine_parseValue_parseBlock_parseBlock_loop_parseList_parseList_loop_dom"
proof (relation "measure (\<lambda>x. case x of
          Inl (Inl (lines, i)) \<Rightarrow> 4 * (length lines - (i + 1)) + 3
        | Inl (Inr (Inl (lines, i, valPart, typeAnn))) \<Rightarrow> 4 * (length lines - (i + 1)) + 2
        | Inl (Inr (Inr (lines, i))) \<Rightarrow> 4 * (length lines - i) + 1
        | Inr (Inl (lines, i, block)) \<Rightarrow> 4 * (length lines - i)
        | Inr (Inr (Inl (lines, i))) \<Rightarrow> 4 * (length lines - i) + 1
        | Inr (Inr (Inr (lines, i, list))) \<Rightarrow> 4 * (length lines - i))", goal_cases)
  case 8
  then show ?case
    by (auto dest!: pair_eq_sndD dest: parse_dom_next(1))
next
  case 13
  then show ?case
    by (auto dest!: pair_eq_sndD dest: parse_dom_next(3))
qed simp_all

termination parseLine
  by (rule parse_dom_all)

lemmas parse_next = parse_dom_next [OF spec [OF parse_dom_all]]

lemma parseLine_measure:
  "i < length lines \<Longrightarrow> length lines - snd (parseLine lines i) < length lines - i"
  using parse_next(1) [of i lines] by arith

declare parseLine.simps [simp del] parseValue.simps [simp del] parseBlock.simps [simp del]
  parseBlock_loop.simps [simp del] parseList.simps [simp del] parseList_loop.simps [simp del]

text \<open>\<open>String(x)\<close>, as \<open>#parseUseDirective\<close> maps it over the elements of an inline list.\<close>

fun js_String :: "Value \<Rightarrow> string" where
  "js_String (Scalar s) = s"
| "js_String (List vs) = js_join '','' (map js_String vs)"
| "js_String (Block b) = ''[object Object]''"
| "js_String (Table c r) = ''[object Object]''"
| "js_String (UseDirective ns) = ''[object Object]''"

text \<open>\<open>#parseUseDirective(line)\<close> and \<open>#parseLintDirective(lines, startIndex)\<close>\<close>

definition parseUseDirective :: "string \<Rightarrow> ParseError + Node" where
  "parseUseDirective line =
     (let content = trim (sliceFrom (trim line) 4) in
      if startsWith content ''['' then
        (let namespaces = map js_String (parseInlineList content) in
         Inr \<lparr>key = ''_use'', typeAnnotation = Some ''directive'', val = UseDirective namespaces\<rparr>)
      else Inl (ParseError ''!use directive requires a list: !use [namespace1, namespace2]''))"

definition parseLintDirective :: "string list \<Rightarrow> nat \<Rightarrow> ParseError + Node \<times> nat" where
  "parseLintDirective lines startIndex =
     (let content = trim (sliceFrom (trim (if startIndex < length lines then lines ! startIndex else [])) 5) in
      if content = ''{'' then
        (case parseBlock lines (startIndex + 1) of
           (v, nextIndex) \<Rightarrow>
             Inr (\<lparr>key = ''_lint'', typeAnnotation = Some ''directive'', val = v\<rparr>, nextIndex))
      else Inl (ParseError ''!lint directive requires a block: !lint { ... }''))"

text \<open>
  \<open>parseDocument(input)\<close>: the \<open>while\<close> loop is \<open>parseDocument_loop\<close>, whose state is the
  index \<open>i\<close> and the array \<open>nodes\<close>. An error thrown by a directive leaves the loop as it
  is (\<open>Inl\<close>).
\<close>

function parseDocument_loop :: "string list \<Rightarrow> nat \<Rightarrow> Node list \<Rightarrow> ParseError + Document" where
  "parseDocument_loop lines i ns =
     (if i < length lines then
        (let line = lines ! i in
         if line = [] then parseDocument_loop lines (i + 1) ns
         else (let trimmed = trim line in
               if trimmed = [] \<or> startsWith trimmed ''#'' then parseDocument_loop lines (i + 1) ns
               else if startsWith trimmed ''!use'' then
                 (case parseUseDirective trimmed of
                    Inl e \<Rightarrow> Inl e
                  | Inr node \<Rightarrow> parseDocument_loop lines (i + 1) (ns @ [node]))
               else if startsWith trimmed ''!lint'' then
                 (case parseLintDirective lines i of
                    Inl e \<Rightarrow> Inl e
                  | Inr (node, nextIndex) \<Rightarrow> parseDocument_loop lines nextIndex (ns @ [node]))
               else (case parseLine lines i of
                       (node, nextIndex) \<Rightarrow> parseDocument_loop lines nextIndex (ns @ [node]))))
      else Inr (Document ns))"
  by pat_completeness auto
termination
proof (relation "measure (\<lambda>(lines, i, ns). length lines - i)", goal_cases)
  case (5 lines i ns line trimmed x2 node nextIndex)
  then have "i + 1 \<le> nextIndex"
    using parse_next(3) [of "i + 1" lines]
    by (auto simp: parseLintDirective_def Let_def split: if_splits prod.splits)
  with 5 show ?case by simp
next
  case 6
  then show ?case
    by (auto dest!: pair_eq_sndD simp: parseLine_measure)
qed simp_all

declare parseDocument_loop.simps [simp del]

definition parseDocument :: "string \<Rightarrow> ParseError + Document" where
  "parseDocument input = parseDocument_loop (js_split (CHR 0x0A) input) 0 []"

text \<open>\<open>export function parse(input)\<close>\<close>

definition parse :: "string \<Rightarrow> ParseError + Document" where
  "parse input = parseDocument input"

section \<open>Two methods of class UpParser\<close>

text \<open>
  The repository also holds an older parser, \<open>class UpParser\<close>, which keeps the lines and
  the current line number in fields. Two of its pieces are the sibling paths that the
  results on C2 and C3 refer to: the splitting of the input in \<open>parse\<close>,
  \<open>input.split(/\r?\n/)\<close>, where a carriage return right before a line feed belongs to the
  separator, and the loop of \<open>#parseMultiline\<close>, which returns the lines read and the new
  line number. (\<open>/^\d+$/.test(typeAnnotation)\<close> holds for a non-empty string of digits, and
  \<open>line.substring(count)\<close> drops \<open>count\<close> characters.)
\<close>

fun UpParser_splitLines :: "string \<Rightarrow> string list" where
  "UpParser_splitLines [] = [[]]"
| "UpParser_splitLines (c # cs) =
     (if c = CHR 0x0A then [] # UpParser_splitLines cs
      else if c = CHR 0x0D \<and> cs \<noteq> [] \<and> hd cs = CHR 0x0A then [] # UpParser_splitLines (tl cs)
      else (case UpParser_splitLines cs of [] \<Rightarrow> [[c]] | p # ps \<Rightarrow> (c # p) # ps))"

definition UpParser_dedent :: "string \<Rightarrow> nat \<Rightarrow> string" where
  "UpParser_dedent text count =
     js_join [CHR 0x0A]
       (map (\<lambda>line. if length line \<ge> count then drop count line else line)
          (js_split (CHR 0x0A) text))"

function UpParser_parseMultiline_loop :: "string list \<Rightarrow> nat \<Rightarrow> string list \<Rightarrow> string list \<times> nat" where
  "UpParser_parseMultiline_loop lines lineNum content =
     (if lineNum < length lines then
        (let line = lines ! lineNum in
         if trim line = ''```'' then (content, lineNum + 1)
         else UpParser_parseMultiline_loop lines (lineNum + 1) (content @ [line]))
      else (content, lineNum))"
  by pat_completeness auto
termination
  by (relation "measure (\<lambda>(lines, lineNum, content). length lines - lineNum)") auto

declare UpParser_parseMultiline_loop.simps [simp del]

definition UpParser_parseMultiline :: "string list \<Rightarrow> nat \<Rightarrow> string \<Rightarrow> string \<Rightarrow> string \<times> nat" where
  "UpParser_parseMultiline lines lineNum firstLine typeAnn =
     (case UpParser_parseMultiline_loop lines lineNum [] of
        (content, lineNum') \<Rightarrow>
          (let text = js_join [CHR 0x0A] content;
               text = (if typeAnn \<noteq> [] \<and> list_all isDigit typeAnn
                       then UpParser_dedent text (nat (digitsVal typeAnn)) else text)
           in (text, lineNum')))"

section \<open>The document driver as a step relation\<close>

text \<open>
  \<open>reaches lines i ns\<close>: the loop of \<open>parseDocument\<close> (extended parser) arrives at the
  index \<open>i\<close> with the nodes \<open>ns\<close>, one rule per branch of the loop body. A line at which
  the loop arrives is a top-level line. The two errors are the ones thrown by
  \<open>#parseUseDirective\<close> and \<open>#parseLintDirective\<close>; a bad use line is a line that reaches
  the \<open>throw\<close> of the first, a bad lint line one that reaches the \<open>throw\<close> of the second.
\<close>

definition useDirectiveError :: ParseError where
  "useDirectiveError = ParseError ''!use directive requires a list: !use [namespace1, namespace2]''"

definition lintDirectiveError :: ParseError where
  "lintDirectiveError = ParseError ''!lint directive requires a block: !lint { ... }''"

inductive reaches :: "string list \<Rightarrow> nat \<Rightarrow> Node list \<Rightarrow> bool" for lines :: "string list" where
  start: "reaches lines 0 []"
| empty: "reaches lines i ns \<Longrightarrow> i < length lines \<Longrightarrow> lines ! i = [] \<Longrightarrow> reaches lines (i + 1) ns"
| skip: "reaches lines i ns \<Longrightarrow> i < length lines \<Longrightarrow> lines ! i \<noteq> [] \<Longrightarrow>
         trim (lines ! i) = [] \<or> startsWith (trim (lines ! i)) ''#'' \<Longrightarrow> reaches lines (i + 1) ns"
| use: "reaches lines i ns \<Longrightarrow> i < length lines \<Longrightarrow> lines ! i \<noteq> [] \<Longrightarrow>
        \<not> (trim (lines ! i) = [] \<or> startsWith (trim (lines ! i)) ''#'') \<Longrightarrow>
        startsWith (trim (lines ! i)) ''!use'' \<Longrightarrow>
        parseUseDirective (trim (lines ! i)) = Inr node \<Longrightarrow> reaches lines (i + 1) (ns @ [node])"
| lint: "reaches lines i ns \<Longrightarrow> i < length lines \<Longrightarrow> lines ! i \<noteq> [] \<Longrightarrow>
        \<not> (trim (lines ! i) = [] \<or> startsWith (trim (lines ! i)) ''#'') \<Longrightarrow>
        \<not> startsWith (trim (lines ! i)) ''!use'' \<Longrightarrow> startsWith (trim (lines ! i)) ''!lint'' \<Longrightarrow>
        parseLintDirective lines i = Inr (node, nextIndex) \<Longrightarrow> reaches lines nextIndex (ns @ [node])"
| line: "reaches lines i ns \<Longrightarrow> i < length lines \<Longrightarrow> lines ! i \<noteq> [] \<Longrightarrow>
        \<not> (trim (lines ! i) = [] \<or> startsWith (trim (lines ! i)) ''#'') \<Longrightarrow>
        \<not> startsWith (trim (lines ! i)) ''!use'' \<Longrightarrow> \<not> startsWith (trim (lines ! i)) ''!lint'' \<Longrightarrow>
        parseLine lines i = (node, nextIndex) \<Longrightarrow> reaches lines nextIndex (ns @ [node])"

definition badUseLine :: "string \<Rightarrow> bool" where
  "badUseLine line \<longleftrightarrow>
     startsWith (trim line) ''!use'' \<and> \<not> startsWith (trim (sliceFrom (trim line) 4)) ''[''"

definition badLintLine :: "string \<Rightarrow> bool" where
  "badLintLine line \<longleftrightarrow>
     \<not> startsWith (trim line) ''!use'' \<and> startsWith (trim line) ''!lint'' \<and>
     trim (sliceFrom (trim line) 5) \<noteq> ''{''"

section \<open>Readings of the claims\<close>

text \<open>
  The words of claim C4: the remainder is cut at the first \<open>#\<close> that does not stand
  between double quotes.
\<close>

fun spec_truncateAtUnquotedHash :: "bool \<Rightarrow> string \<Rightarrow> string" where
  "spec_truncateAtUnquotedHash quoted [] = []"
| "spec_truncateAtUnquotedHash quoted (c # cs) =
     (if c = CHR 0x22 then c # spec_truncateAtUnquotedHash (\<not> quoted) cs
      else if c = CHR ''#'' \<and> \<not> quoted then []
      else c # spec_truncateAtUnquotedHash quoted cs)"

text \<open>The words of claim C3: the same text with CRLF line endings.\<close>

definition crlf :: "string \<Rightarrow> string" where
  "crlf s = concat (map (\<lambda>c. if c = CHR 0x0A then [CHR 0x0D, CHR 0x0A] else [c]) s)"

section \<open>Facts about the string functions\<close>

lemma trim_eq_Nil_iff: "trim s = [] \<longleftrightarrow> list_all isWhiteSpace s"
proof
  assume "trim s = []"
  then have a: "\<forall>x \<in> set (dropWhile isWhiteSpace s). isWhiteSpace x"
    by (simp add: trim_def dropWhile_eq_Nil_conv)
  have "dropWhile isWhiteSpace s = []"
  proof (rule ccontr)
    assume n: "dropWhile isWhiteSpace s \<noteq> []"
    then have "\<not> isWhiteSpace (hd (dropWhile isWhiteSpace s))" by (rule hd_dropWhile)
    with a n show False by (meson hd_in_set)
  qed
  then show "list_all isWhiteSpace s"
    unfolding dropWhile_eq_Nil_conv list_all_iff .
next
  assume "list_all isWhiteSpace s"
  then have "dropWhile isWhiteSpace s = []"
    unfolding dropWhile_eq_Nil_conv list_all_iff .
  then show "trim s = []" by (simp only: trim_def rev.simps dropWhile.simps)
qed

lemma trim_id:
  assumes "s \<noteq> []" "\<not> isWhiteSpace (hd s)" "\<not> isWhiteSpace (last s)"
  shows "trim s = s"
proof -
  have a: "dropWhile isWhiteSpace s = s"
    using assms by (cases s) auto
  have "dropWhile isWhiteSpace (rev s) = rev s"
    using assms by (cases "rev s") (auto simp: last_rev [symmetric] hd_rev)
  with a show ?thesis by (simp add: trim_def)
qed

lemma trim_padded:
  assumes "x \<noteq> []" "\<not> isWhiteSpace (hd x)" "\<not> isWhiteSpace (last x)"
    "list_all isWhiteSpace pre" "list_all isWhiteSpace post"
  shows "trim (pre @ x @ post) = x"
proof -
  have a: "dropWhile isWhiteSpace (pre @ x @ post) = x @ post"
  proof -
    have "dropWhile isWhiteSpace (pre @ x @ post) = dropWhile isWhiteSpace (x @ post)"
      using assms(4) by (simp add: dropWhile_append2 list_all_iff)
    also have "\<dots> = x @ post" using assms(1,2) by (cases x) auto
    finally show ?thesis .
  qed
  have b: "dropWhile isWhiteSpace (rev post @ rev x) = rev x"
  proof -
    have "dropWhile isWhiteSpace (rev post @ rev x) = dropWhile isWhiteSpace (rev x)"
      using assms(5) by (intro dropWhile_append2) (simp add: list_all_iff)
    also have "\<dots> = rev x" using assms(1,3) by (cases "rev x") (auto simp: hd_rev)
    finally show ?thesis .
  qed
  show ?thesis by (simp add: trim_def a b)
qed

lemma set_trim: "set (trim s) \<subseteq> set s"
  by (auto simp: trim_def dest!: set_dropWhileD)

lemma slice_inner: "slice (a # c @ [b]) 1 (- 1) = c"
  by (simp add: slice_def sliceIndex_def Let_def)

lemma js_split_no_sep: "sep \<notin> set s \<Longrightarrow> js_split sep s = [s]"
  by (induction s) auto

lemma js_split_append_sep:
  "sep \<notin> set x \<Longrightarrow> js_split sep (x @ sep # rest) = x # js_split sep rest"
  by (induction x) auto

lemma js_split_join:
  assumes "segs \<noteq> []" "\<forall>x \<in> set segs. sep \<notin> set x"
  shows "js_split sep (js_join [sep] segs) = segs"
  using assms
proof (induction segs rule: list_nonempty_induct)
  case (single x)
  then show ?case by (simp add: js_split_no_sep)
next
  case (cons x xs)
  then obtain y ys where "xs = y # ys" by (cases xs) auto
  with cons show ?case by (simp add: js_split_append_sep)
qed

lemma js_join_trim_Nil:
  assumes "segs \<noteq> []" "\<not> isWhiteSpace sep"
  shows "trim (js_join [sep] segs) = [] \<longleftrightarrow> length segs = 1 \<and> trim (hd segs) = []"
proof (cases segs)
  case Nil
  with assms show ?thesis by simp
next
  case (Cons x xs)
  show ?thesis
  proof (cases xs)
    case Nil
    with Cons show ?thesis by simp
  next
    case (Cons y ys)
    with \<open>segs = x # xs\<close> assms(2) show ?thesis
      by (auto simp: trim_eq_Nil_iff)
  qed
qed

lemma parseInlineList_bracketed:
  assumes "segs \<noteq> []" "\<forall>x \<in> set segs. CHR '','' \<notin> set x"
  shows "parseInlineList (''['' @ js_join '','' segs @ '']'') =
           (if length segs = 1 \<and> trim (hd segs) = [] then [] else map (\<lambda>x. Scalar (trim x)) segs)"
proof -
  have t: "trim (''['' @ js_join '','' segs @ '']'') = ''['' @ js_join '','' segs @ '']''"
    by (rule trim_id) (simp_all add: isWhiteSpace_def)
  have s: "slice (''['' @ js_join '','' segs @ '']'') 1 (- 1) = js_join '','' segs"
    using slice_inner [of "CHR ''[''" "js_join '','' segs" "CHR '']''"] by simp
  have n: "trim (js_join '','' segs) = [] \<longleftrightarrow> length segs = 1 \<and> trim (hd segs) = []"
    using assms(1) by (rule js_join_trim_Nil) (simp add: isWhiteSpace_def)
  show ?thesis
    using assms by (simp add: parseInlineList_def Let_def t s n js_split_join del: append.simps)
qed

lemma parseInlineList_padded:
  assumes "list_all isWhiteSpace pre" "list_all isWhiteSpace post"
  shows "parseInlineList (pre @ ''['' @ c @ '']'' @ post) = parseInlineList (''['' @ c @ '']'')"
proof -
  have "trim (pre @ (''['' @ c @ '']'') @ post) = ''['' @ c @ '']''"
    using assms by (intro trim_padded) (simp_all add: isWhiteSpace_def)
  moreover have "trim ([] @ (''['' @ c @ '']'') @ []) = ''['' @ c @ '']''"
    by (intro trim_padded) (simp_all add: isWhiteSpace_def)
  ultimately show ?thesis by (simp add: parseInlineList_def)
qed

lemma last_dropWhile: "dropWhile P xs \<noteq> [] \<Longrightarrow> last (dropWhile P xs) = last xs"
  by (induction xs) (auto split: if_splits)

lemma trim_ends:
  assumes "trim s \<noteq> []"
  shows "\<not> isWhiteSpace (hd (trim s))" "\<not> isWhiteSpace (last (trim s))"
proof -
  let ?d = "dropWhile isWhiteSpace s"
  let ?e = "dropWhile isWhiteSpace (rev ?d)"
  have e: "?e \<noteq> []" using assms by (simp add: trim_def)
  have d: "?d \<noteq> []"
  proof
    assume "?d = []"
    then have "?e = []" by (simp only: rev.simps dropWhile.simps)
    with e show False by contradiction
  qed
  have "last (trim s) = hd ?e" using e by (simp add: trim_def last_rev)
  then show "\<not> isWhiteSpace (last (trim s))" using hd_dropWhile [OF e] by simp
  have "hd (trim s) = last ?e" using e by (simp add: trim_def hd_rev)
  also have "\<dots> = last (rev ?d)" using e by (rule last_dropWhile)
  also have "\<dots> = hd ?d" using d by (simp add: last_rev)
  finally show "\<not> isWhiteSpace (hd (trim s))" using hd_dropWhile [OF d] by simp
qed

lemma trim_trim: "trim (trim s) = trim s"
proof (cases "trim s = []")
  case True
  have "trim [] = []" by (simp add: trim_def)
  with True show ?thesis by simp
next
  case False
  then show ?thesis using trim_ends [OF False] by (intro trim_id)
qed

lemma startsWith_nonempty: "startsWith s p \<Longrightarrow> p \<noteq> [] \<Longrightarrow> s \<noteq> []"
  by (auto simp: startsWith_def)

lemma startsWith_hd: "startsWith s (c # p) \<Longrightarrow> hd s = c"
  by (cases s) (auto simp: startsWith_def)

lemma use_line_not_skipped:
  assumes "startsWith t ''!use''"
  shows "t \<noteq> []" "\<not> startsWith t ''#''"
  using assms startsWith_nonempty [OF assms] startsWith_hd [of t "CHR ''!''" "''use''"]
    startsWith_hd [of t "CHR ''#''" "[]"] by auto

lemma trim_nonempty_arg: "trim s \<noteq> [] \<Longrightarrow> s \<noteq> []"
  by (auto simp: trim_def)

lemma indexOf_None: "indexOf s c = None \<longleftrightarrow> c \<notin> set s"
  by (induction s) auto

lemma indexOf_Some_take: "indexOf s c = Some i \<Longrightarrow> take i s = takeWhile (\<lambda>x. x \<noteq> c) s"
  by (induction s arbitrary: i) (auto split: if_splits)

lemma indexOf_Some_le: "indexOf s c = Some i \<Longrightarrow> i < length s"
  by (induction s arbitrary: i) (auto split: if_splits)

lemma slice_0_take: "i \<le> length s \<Longrightarrow> slice s 0 (int i) = take i s"
  by (simp add: slice_def sliceIndex_def Let_def)

lemma set_slice: "set (slice s a b) \<subseteq> set s"
  unfolding slice_def Let_def
  by (meson set_take_subset set_drop_subset subset_trans)

lemma takeWhile_no_hash: "c \<notin> set (takeWhile (\<lambda>x. x \<noteq> c) s)"
  by (induction s) auto

section \<open>Facts about the parsers\<close>

subsection \<open>The regular expression of the key/value split\<close>

text \<open>
  \<open>matchKeyValue\<close> returns a match of \<open>/^(\S+)\s*(.*)$/\<close>, and it finds one whenever the
  line has one at all, with the longest key.
\<close>

lemma matchKeyValue_sound:
  assumes "matchKeyValue line = Some (k, v)"
  shows "\<exists>w. line = k @ w @ v \<and> k \<noteq> [] \<and> list_all (\<lambda>c. \<not> isWhiteSpace c) k \<and>
             list_all isWhiteSpace w \<and> \<not> list_ex isLineTerminator v"
proof -
  let ?rest = "dropWhile (\<lambda>c. \<not> isWhiteSpace c) line"
  from assms have k: "k = takeWhile (\<lambda>c. \<not> isWhiteSpace c) line" and v: "v = dropWhile isWhiteSpace ?rest"
    and ne: "k \<noteq> []" and nl: "\<not> list_ex isLineTerminator v"
    by (auto simp: matchKeyValue_def Let_def split: if_splits)
  have "line = k @ takeWhile isWhiteSpace ?rest @ v"
    using k v by simp
  moreover have "list_all (\<lambda>c. \<not> isWhiteSpace c) k"
    using k by (auto simp: list_all_iff dest: set_takeWhileD)
  moreover have "list_all isWhiteSpace (takeWhile isWhiteSpace ?rest)"
    by (auto simp: list_all_iff dest: set_takeWhileD)
  ultimately show ?thesis using ne nl by blast
qed

lemma matchKeyValue_complete:
  assumes "line = k @ w @ v" "k \<noteq> []" "list_all (\<lambda>c. \<not> isWhiteSpace c) k"
    "list_all isWhiteSpace w" "\<not> list_ex isLineTerminator v"
  shows "\<exists>k' v'. matchKeyValue line = Some (k @ k', v')"
proof -
  let ?n = "\<lambda>c. \<not> isWhiteSpace c"
  have kk: "takeWhile ?n line = k @ takeWhile ?n (w @ v)"
    using assms(1,3) by (simp add: takeWhile_append2 list_all_iff)
  have dd: "dropWhile ?n line = dropWhile ?n (w @ v)"
    using assms(1,3) by (simp add: dropWhile_append2 list_all_iff)
  have sub: "set (dropWhile isWhiteSpace (dropWhile ?n (w @ v))) \<subseteq> set v"
  proof (cases w)
    case Nil
    then show ?thesis by (auto dest!: set_dropWhileD)
  next
    case (Cons c cs)
    with assms(4) have "dropWhile ?n (w @ v) = w @ v" by simp
    moreover have "dropWhile isWhiteSpace (w @ v) = dropWhile isWhiteSpace v"
      using assms(4) by (simp add: dropWhile_append2 list_all_iff)
    ultimately show ?thesis by (auto dest!: set_dropWhileD)
  qed
  have "\<not> list_ex isLineTerminator (dropWhile isWhiteSpace (dropWhile ?n line))"
    using sub assms(5) unfolding dd list_ex_iff by blast
  moreover have "takeWhile ?n line \<noteq> []" using kk assms(2) by simp
  ultimately show ?thesis
    unfolding matchKeyValue_def Let_def kk [symmetric] using kk by auto
qed


subsection \<open>Indices stay within the input\<close>






subsection \<open>The document driver\<close>

lemma reaches_loop:
  "reaches lines i ns \<Longrightarrow> parseDocument_loop lines 0 [] = parseDocument_loop lines i ns"
proof (induction rule: reaches.induct)
  case start
  show ?case by simp
next
  case (empty i ns)
  then show ?case by (simp add: parseDocument_loop.simps [of lines i ns])
next
  case (skip i ns)
  then show ?case by (auto simp: parseDocument_loop.simps [of lines i ns] Let_def)
next
  case (use i ns node)
  then show ?case by (auto simp: parseDocument_loop.simps [of lines i ns] Let_def)
next
  case (lint i ns node nextIndex)
  then show ?case by (auto simp: parseDocument_loop.simps [of lines i ns] Let_def)
next
  case (line i ns node nextIndex)
  then show ?case by (auto simp: parseDocument_loop.simps [of lines i ns] Let_def)
qed

lemma parseUseDirective_error:
  "parseUseDirective line = Inl e \<longleftrightarrow>
     \<not> startsWith (trim (sliceFrom (trim line) 4)) ''['' \<and> e = useDirectiveError"
  by (auto simp: parseUseDirective_def useDirectiveError_def Let_def)

lemma parseUseDirective_trimmed_error:
  "parseUseDirective (trim line) = Inl e \<longleftrightarrow>
     \<not> startsWith (trim (sliceFrom (trim line) 4)) ''['' \<and> e = useDirectiveError"
  by (simp add: parseUseDirective_error trim_trim)

lemma directive_errors_differ: "lintDirectiveError \<noteq> useDirectiveError"
  by (simp add: lintDirectiveError_def useDirectiveError_def)

lemma parseLintDirective_error_iff:
  "i < length lines \<Longrightarrow>
     parseLintDirective lines i = Inl e \<longleftrightarrow>
       trim (sliceFrom (trim (lines ! i)) 5) \<noteq> ''{'' \<and> e = lintDirectiveError"
  by (auto simp: parseLintDirective_def lintDirectiveError_def Let_def split: prod.splits)

lemma loop_use_step:
  assumes "i < length lines" "startsWith (trim (lines ! i)) ''!use''"
  shows "parseDocument_loop lines i ns =
           (case parseUseDirective (trim (lines ! i)) of
              Inl e \<Rightarrow> Inl e
            | Inr node \<Rightarrow> parseDocument_loop lines (i + 1) (ns @ [node]))"
  using assms use_line_not_skipped [OF assms(2)] trim_nonempty_arg [of "lines ! i"]
  by (auto simp: parseDocument_loop.simps [of lines i ns] Let_def)

lemma loop_error_only_if:
  "parseDocument_loop lines i ns = Inl e \<Longrightarrow> reaches lines i ns \<Longrightarrow>
     \<exists>j ns'. reaches lines j ns' \<and> j < length lines \<and>
       (badUseLine (lines ! j) \<and> e = useDirectiveError \<or>
        badLintLine (lines ! j) \<and> e = lintDirectiveError)"
proof (induction lines i ns rule: parseDocument_loop.induct)
  case (1 lines i ns)
  from "1.prems"(1) have lt: "i < length lines"
    by (auto simp: parseDocument_loop.simps [of lines i ns] split: if_splits)
  let ?t = "trim (lines ! i)"
  show ?case
  proof (cases "lines ! i = []")
    case True
    with lt "1.prems" have "parseDocument_loop lines (i + 1) ns = Inl e"
      by (simp add: parseDocument_loop.simps [of lines i ns])
    moreover have "reaches lines (i + 1) ns"
      using "1.prems"(2) lt True by (rule reaches.empty)
    ultimately show ?thesis using "1.IH"(1) [OF lt refl True] by blast
  next
    case ne: False
    show ?thesis
    proof (cases "?t = [] \<or> startsWith ?t ''#''")
      case True
      with lt ne "1.prems" have "parseDocument_loop lines (i + 1) ns = Inl e"
        by (auto simp: parseDocument_loop.simps [of lines i ns] Let_def)
      moreover have "reaches lines (i + 1) ns"
        using "1.prems"(2) lt ne True by (rule reaches.skip)
      ultimately show ?thesis using "1.IH"(2) [OF lt refl ne refl True] by blast
    next
      case ns: False
      show ?thesis
      proof (cases "startsWith ?t ''!use''")
        case u: True
        show ?thesis
        proof (cases "parseUseDirective ?t")
          case (Inl e')
          then have "badUseLine (lines ! i) \<and> e' = useDirectiveError"
            using u by (simp add: parseUseDirective_trimmed_error badUseLine_def)
          moreover from Inl lt ne ns u "1.prems" have "e' = e"
            by (auto simp: parseDocument_loop.simps [of lines i ns] Let_def)
          ultimately show ?thesis using "1.prems"(2) lt by blast
        next
          case (Inr node)
          with lt ne ns u "1.prems" have "parseDocument_loop lines (i + 1) (ns @ [node]) = Inl e"
            by (auto simp: parseDocument_loop.simps [of lines i ns] Let_def)
          moreover have "reaches lines (i + 1) (ns @ [node])"
            using "1.prems"(2) lt ne ns u Inr by (rule reaches.use)
          ultimately show ?thesis using "1.IH"(3) [OF lt refl ne refl ns u Inr] by blast
        qed
      next
        case nu: False
        show ?thesis
        proof (cases "startsWith ?t ''!lint''")
          case l: True
          show ?thesis
          proof (cases "parseLintDirective lines i")
            case (Inl e')
            with lt ne ns nu l "1.prems" have "e' = e"
              by (auto simp: parseDocument_loop.simps [of lines i ns] Let_def)
            moreover have "badLintLine (lines ! i) \<and> e' = lintDirectiveError"
              using Inl nu l lt by (simp add: parseLintDirective_error_iff badLintLine_def)
            ultimately show ?thesis using "1.prems"(2) lt by blast
          next
            case (Inr r)
            obtain node nextIndex where r: "r = (node, nextIndex)" by (cases r)
            with Inr lt ne ns nu l "1.prems"
            have "parseDocument_loop lines nextIndex (ns @ [node]) = Inl e"
              by (auto simp: parseDocument_loop.simps [of lines i ns] Let_def)
            moreover have "reaches lines nextIndex (ns @ [node])"
              using "1.prems"(2) lt ne ns nu l Inr [unfolded r] by (rule reaches.lint)
            ultimately show ?thesis
              using "1.IH"(4) [OF lt refl ne refl ns nu l Inr r [symmetric]] by blast
          qed
        next
          case nl: False
          obtain node nextIndex where r: "parseLine lines i = (node, nextIndex)"
            by (cases "parseLine lines i")
          with lt ne ns nu nl "1.prems"
          have "parseDocument_loop lines nextIndex (ns @ [node]) = Inl e"
            by (auto simp: parseDocument_loop.simps [of lines i ns] Let_def)
          moreover have "reaches lines nextIndex (ns @ [node])"
            using "1.prems"(2) lt ne ns nu nl r by (rule reaches.line)
          ultimately show ?thesis
            using "1.IH"(5) [OF lt refl ne refl ns nu nl r [symmetric]] by blast
        qed
      qed
    qed
  qed
qed


lemma loop_bad_use_line:
  assumes "reaches lines i ns" "i < length lines" "badUseLine (lines ! i)"
  shows "parseDocument_loop lines 0 [] = Inl useDirectiveError"
proof -
  have u: "startsWith (trim (lines ! i)) ''!use''"
    using assms(3) by (simp add: badUseLine_def)
  have "parseUseDirective (trim (lines ! i)) = Inl useDirectiveError"
    using assms(3) by (simp add: parseUseDirective_trimmed_error badUseLine_def)
  then have "parseDocument_loop lines i ns = Inl useDirectiveError"
    using loop_use_step [OF assms(2) u] by simp
  with reaches_loop [OF assms(1)] show ?thesis by simp
qed

text \<open>
  What the loop returns starts with the nodes it was entered with: \<open>nodes.push\<close> is the
  only change made to the array.
\<close>

lemma take_snoc_prefix:
  assumes "take (length (ns @ [x])) ds = ns @ [x]"
  shows "take (length ns) ds = ns"
proof -
  have "take (length ns) ds = take (length ns) (take (length (ns @ [x])) ds)"
    by (simp add: min_def)
  also have "\<dots> = ns" by (simp only: assms) simp
  finally show ?thesis .
qed

lemma loop_result_prefix:
  "parseDocument_loop lines i ns = Inr d \<Longrightarrow> take (length ns) (nodes d) = ns"
proof (induction lines i ns rule: parseDocument_loop.induct)
  case (1 lines i ns)
  show ?case
  proof (cases "i < length lines")
    case False
    with "1.prems" show ?thesis by (auto simp: parseDocument_loop.simps [of lines i ns])
  next
    case lt: True
    let ?t = "trim (lines ! i)"
    show ?thesis
    proof (cases "lines ! i = []")
      case True
      with lt "1.prems" have "parseDocument_loop lines (i + 1) ns = Inr d"
        by (simp add: parseDocument_loop.simps [of lines i ns])
      then show ?thesis by (rule "1.IH"(1) [OF lt refl True])
    next
      case ne: False
      show ?thesis
      proof (cases "?t = [] \<or> startsWith ?t ''#''")
        case True
        with lt ne "1.prems" have "parseDocument_loop lines (i + 1) ns = Inr d"
          by (auto simp: parseDocument_loop.simps [of lines i ns] Let_def)
        then show ?thesis by (rule "1.IH"(2) [OF lt refl ne refl True])
      next
        case ns: False
        show ?thesis
        proof (cases "startsWith ?t ''!use''")
          case u: True
          show ?thesis
          proof (cases "parseUseDirective ?t")
            case (Inl e')
            with lt ne ns u "1.prems" show ?thesis
              by (auto simp: parseDocument_loop.simps [of lines i ns] Let_def)
          next
            case (Inr node)
            with lt ne ns u "1.prems" have "parseDocument_loop lines (i + 1) (ns @ [node]) = Inr d"
              by (auto simp: parseDocument_loop.simps [of lines i ns] Let_def)
            then have "take (length (ns @ [node])) (nodes d) = ns @ [node]"
              by (rule "1.IH"(3) [OF lt refl ne refl ns u Inr])
            then show ?thesis by (rule take_snoc_prefix)
          qed
        next
          case nu: False
          show ?thesis
          proof (cases "startsWith ?t ''!lint''")
            case l: True
            show ?thesis
            proof (cases "parseLintDirective lines i")
              case (Inl e')
              with lt ne ns nu l "1.prems" show ?thesis
                by (auto simp: parseDocument_loop.simps [of lines i ns] Let_def)
            next
              case (Inr r)
              obtain node nextIndex where r: "r = (node, nextIndex)" by (cases r)
              with Inr lt ne ns nu l "1.prems"
              have "parseDocument_loop lines nextIndex (ns @ [node]) = Inr d"
                by (auto simp: parseDocument_loop.simps [of lines i ns] Let_def)
              then have "take (length (ns @ [node])) (nodes d) = ns @ [node]"
                by (rule "1.IH"(4) [OF lt refl ne refl ns nu l Inr r [symmetric]])
              then show ?thesis by (rule take_snoc_prefix)
            qed
          next
            case nl: False
            obtain node nextIndex where r: "parseLine lines i = (node, nextIndex)"
              by (cases "parseLine lines i")
            with lt ne ns nu nl "1.prems"
            have "parseDocument_loop lines nextIndex (ns @ [node]) = Inr d"
              by (auto simp: parseDocument_loop.simps [of lines i ns] Let_def)
            then have "take (length (ns @ [node])) (nodes d) = ns @ [node]"
              by (rule "1.IH"(5) [OF lt refl ne refl ns nu nl r [symmetric]])
            then show ?thesis by (rule take_snoc_prefix)
          qed
        qed
      qed
    qed
  qed
qed

section \<open>The claims\<close>

subsection \<open>C1: blank lines inside a block\<close>

text \<open>
  The loop of \<open>#parseBlock\<close> starts with \<open>if (!line) break\<close>: a line that is the empty
  string ends the block (and is not consumed), before the test that skips blank lines
  is reached. A blank line that still holds white space is skipped. The loop of
  \<open>parseDocument\<close>, in the same class, skips the empty line
  (\<open>if (!line) { i++; continue; }\<close>).
\<close>

lemma parseBlock_loop_empty_line:
  "i < length lines \<Longrightarrow> lines ! i = [] \<Longrightarrow> parseBlock_loop lines i block = (Block block, i)"
  by (simp add: parseBlock_loop.simps [of lines i block])

lemma up_parseBlock_loop_empty_line:
  "i < length lines \<Longrightarrow> lines ! i = [] \<Longrightarrow> up_parseBlock_loop lines i block = (Block block, i)"
  by (simp add: up_parseBlock_loop.simps [of lines i block])

lemma parseBlock_loop_white_line:
  "i < length lines \<Longrightarrow> lines ! i \<noteq> [] \<Longrightarrow> trim (lines ! i) = [] \<Longrightarrow>
     parseBlock_loop lines i block = parseBlock_loop lines (i + 1) block"
  by (simp add: parseBlock_loop.simps [of lines i block] Let_def)

lemma up_parseBlock_loop_white_line:
  "i < length lines \<Longrightarrow> lines ! i \<noteq> [] \<Longrightarrow> trim (lines ! i) = [] \<Longrightarrow>
     up_parseBlock_loop lines i block = up_parseBlock_loop lines (i + 1) block"
  by (simp add: up_parseBlock_loop.simps [of lines i block] Let_def)

lemma parseDocument_loop_empty_line:
  "i < length lines \<Longrightarrow> lines ! i = [] \<Longrightarrow>
     parseDocument_loop lines i ns = parseDocument_loop lines (i + 1) ns"
  by (simp add: parseDocument_loop.simps [of lines i ns])

lemma up_parseDocument_loop_empty_line:
  "i < length lines \<Longrightarrow> lines ! i = [] \<Longrightarrow>
     up_parseDocument_loop lines i ns = up_parseDocument_loop lines (i + 1) ns"
  by (simp add: up_parseDocument_loop.simps [of lines i ns])

text \<open>
  Claim C1 says that a blank line between the opening and the closing line of a block is
  skipped, so that \<open>"a {\nb c\n\nd e\n}"\<close> yields the single node \<open>a\<close> whose block holds
  \<open>b\<close> and \<open>d\<close>. Both versions of \<open>class Parser\<close> return three nodes for this input: the
  block of \<open>a\<close> ends at the empty line with \<open>b\<close> alone, and \<open>d e\<close> and \<open>}\<close> are parsed as
  top-level lines.
\<close>

theorem C1_empty_line_ends_block:
  "up_parse ''a {\<newline>b c\<newline>\<newline>d e\<newline>}'' =
     Document [\<lparr>key = ''a'', typeAnnotation = None, val = Block [(''b'', Scalar ''c'')]\<rparr>,
               \<lparr>key = ''d'', typeAnnotation = None, val = Scalar ''e''\<rparr>,
               \<lparr>key = ''}'', typeAnnotation = None, val = Scalar []\<rparr>]
   \<and> parse ''a {\<newline>b c\<newline>\<newline>d e\<newline>}'' =
     Inr (Document [\<lparr>key = ''a'', typeAnnotation = None, val = Block [(''b'', Scalar ''c'')]\<rparr>,
                    \<lparr>key = ''d'', typeAnnotation = None, val = Scalar ''e''\<rparr>,
                    \<lparr>key = ''}'', typeAnnotation = None, val = Scalar []\<rparr>])"
  by code_simp

subsection \<open>C2: blank lines inside a multiline value\<close>

text \<open>
  The loop of \<open>#parseMultiline\<close> has the same first statement: an empty line ends the
  accumulation and is left to the caller. Where no line before the closing fence is
  empty, the lines are collected as the claim says. The loop of \<open>UpParser\<close> has no such
  statement and collects every line before the fence.
\<close>

lemma parseMultiline_loop_empty_line:
  "i < length lines \<Longrightarrow> lines ! i = [] \<Longrightarrow> parseMultiline_loop lines i content = (content, i)"
  by (simp add: parseMultiline_loop.simps [of lines i content])

lemma parseMultiline_loop_collects:
  assumes "lineNum + n < length lines"
    and "\<forall>j < n. lines ! (lineNum + j) \<noteq> [] \<and> trim (lines ! (lineNum + j)) \<noteq> ''```''"
    and "trim (lines ! (lineNum + n)) = ''```''"
  shows "parseMultiline_loop lines lineNum content =
           (content @ take n (drop lineNum lines), lineNum + n + 1)"
  using assms
proof (induction n arbitrary: lineNum content)
  case 0
  then have "lines ! lineNum \<noteq> []" by (auto simp: trim_def)
  with 0 show ?case by (simp add: parseMultiline_loop.simps [of lines lineNum content])
next
  case (Suc n)
  have lt: "lineNum < length lines" using Suc.prems(1) by simp
  have nf: "lines ! lineNum \<noteq> [] \<and> trim (lines ! lineNum) \<noteq> ''```''"
    using Suc.prems(2) [rule_format, of 0] by simp
  have "parseMultiline_loop lines (lineNum + 1) (content @ [lines ! lineNum]) =
          ((content @ [lines ! lineNum]) @ take n (drop (lineNum + 1) lines), (lineNum + 1) + n + 1)"
  proof (rule Suc.IH)
    show "lineNum + 1 + n < length lines" using Suc.prems(1) by simp
    show "\<forall>j<n. lines ! (lineNum + 1 + j) \<noteq> [] \<and> trim (lines ! (lineNum + 1 + j)) \<noteq> ''```''"
      using Suc.prems(2) by (auto dest: spec [of _ "Suc _"])
    show "trim (lines ! (lineNum + 1 + n)) = ''```''" using Suc.prems(3) by simp
  qed
  moreover have "take (Suc n) (drop lineNum lines) = lines ! lineNum # take n (drop (lineNum + 1) lines)"
    using lt by (simp add: Cons_nth_drop_Suc [symmetric])
  ultimately show ?case
    using lt nf by (simp add: parseMultiline_loop.simps [of lines lineNum content] Let_def)
qed

lemma UpParser_parseMultiline_loop_collects:
  assumes "lineNum + n < length lines"
    and "\<forall>j < n. trim (lines ! (lineNum + j)) \<noteq> ''```''"
    and "trim (lines ! (lineNum + n)) = ''```''"
  shows "UpParser_parseMultiline_loop lines lineNum content =
           (content @ take n (drop lineNum lines), lineNum + n + 1)"
  using assms
proof (induction n arbitrary: lineNum content)
  case 0
  then show ?case by (simp add: UpParser_parseMultiline_loop.simps [of lines lineNum content])
next
  case (Suc n)
  have lt: "lineNum < length lines" using Suc.prems(1) by simp
  have nf: "trim (lines ! lineNum) \<noteq> ''```''" using Suc.prems(2) [rule_format, of 0] by simp
  have "UpParser_parseMultiline_loop lines (lineNum + 1) (content @ [lines ! lineNum]) =
          ((content @ [lines ! lineNum]) @ take n (drop (lineNum + 1) lines), (lineNum + 1) + n + 1)"
  proof (rule Suc.IH)
    show "lineNum + 1 + n < length lines" using Suc.prems(1) by simp
    show "\<forall>j<n. trim (lines ! (lineNum + 1 + j)) \<noteq> ''```''"
      using Suc.prems(2) by (auto dest: spec [of _ "Suc _"])
    show "trim (lines ! (lineNum + 1 + n)) = ''```''" using Suc.prems(3) by simp
  qed
  moreover have "take (Suc n) (drop lineNum lines) = lines ! lineNum # take n (drop (lineNum + 1) lines)"
    using lt by (simp add: Cons_nth_drop_Suc [symmetric])
  ultimately show ?case
    using lt nf by (simp add: UpParser_parseMultiline_loop.simps [of lines lineNum content] Let_def)
qed

text \<open>
  Claim C2 says that every line up to the closing fence is appended, blank lines
  included. For \<open>"d ```\na\n\nb\n```"\<close> the value of \<open>d\<close> is \<open>"a"\<close>, not \<open>"a\n\nb"\<close>: the
  accumulation stops at the empty line, and \<open>b\<close> and the closing fence are parsed as
  top-level lines. On the same lines \<open>#parseMultiline\<close> of \<open>UpParser\<close> returns \<open>"a\n\nb"\<close>.
\<close>

theorem C2_empty_line_ends_multiline:
  "up_parse ''d ```\<newline>a\<newline>\<newline>b\<newline>```'' =
     Document [\<lparr>key = ''d'', typeAnnotation = None, val = Scalar ''a''\<rparr>,
               \<lparr>key = ''b'', typeAnnotation = None, val = Scalar []\<rparr>,
               \<lparr>key = ''```'', typeAnnotation = None, val = Scalar []\<rparr>]
   \<and> parse ''d ```\<newline>a\<newline>\<newline>b\<newline>```'' =
     Inr (Document [\<lparr>key = ''d'', typeAnnotation = None, val = Scalar ''a''\<rparr>,
                    \<lparr>key = ''b'', typeAnnotation = None, val = Scalar []\<rparr>,
                    \<lparr>key = ''```'', typeAnnotation = None, val = Scalar []\<rparr>])
   \<and> UpParser_parseMultiline (UpParser_splitLines ''d ```\<newline>a\<newline>\<newline>b\<newline>```'') 1 ''```'' [] =
     (''a\<newline>\<newline>b'', 5)"
  by code_simp

subsection \<open>C3: carriage returns\<close>

text \<open>
  \<open>UpParser.parse\<close> splits at \<open>/\r?\n/\<close>: a text with CRLF line endings has the lines of
  the same text with LF line endings.
\<close>

lemma UpParser_splitLines_no_cr:
  "CHR 0x0D \<notin> set s \<Longrightarrow> UpParser_splitLines s = js_split (CHR 0x0A) s"
  by (induction s) auto

lemma UpParser_splitLines_crlf:
  "CHR 0x0D \<notin> set s \<Longrightarrow> UpParser_splitLines (crlf s) = js_split (CHR 0x0A) s"
proof (induction s)
  case Nil
  then show ?case by (simp add: crlf_def)
next
  case (Cons c s)
  then have ih: "UpParser_splitLines (crlf s) = js_split (CHR 0x0A) s" by simp
  show ?case
  proof (cases "c = CHR 0x0A")
    case True
    have "crlf (c # s) = CHR 0x0D # CHR 0x0A # crlf s" using True by (simp add: crlf_def)
    then show ?thesis using True ih by simp
  next
    case False
    have "crlf (c # s) = c # crlf s" using False by (simp add: crlf_def)
    moreover have "c \<noteq> CHR 0x0D" using Cons.prems by auto
    ultimately show ?thesis using False ih by simp
  qed
qed

text \<open>
  Claim C3 says that a carriage return before a line feed is tolerated, so that an input
  with CRLF line endings parses to the document of the same input with LF line endings.
  \<open>parseDocument\<close> of \<open>src/up.ts\<close> splits on \<open>'\n'\<close> alone. The carriage return stays at
  the end of the line, where the regular expression of \<open>#splitKeyValue\<close> cannot match it
  after a value (\<open>.\<close> does not match it and \<open>$\<close> needs the end of the line): the whole
  trimmed line becomes the key and the value is empty.
\<close>

theorem C3_crlf_differs_from_lf:
  "up_parse (crlf ''name John\<newline>age 30'') =
     Document [\<lparr>key = ''name John'', typeAnnotation = None, val = Scalar []\<rparr>,
               \<lparr>key = ''age'', typeAnnotation = None, val = Scalar ''30''\<rparr>]
   \<and> up_parse ''name John\<newline>age 30'' =
     Document [\<lparr>key = ''name'', typeAnnotation = None, val = Scalar ''John''\<rparr>,
               \<lparr>key = ''age'', typeAnnotation = None, val = Scalar ''30''\<rparr>]
   \<and> crlf ''name John\<newline>age 30'' = ''name John'' @ [CHR 0x0D] @ ''\<newline>age 30''
   \<and> UpParser_splitLines (crlf ''name John\<newline>age 30'') = [''name John'', ''age 30'']"
  by code_simp

subsection \<open>C4: comments in line-oriented headers\<close>

lemma set_stripSurroundingQuotes: "set (stripSurroundingQuotes s) \<subseteq> set s"
  using set_slice by (auto simp: stripSurroundingQuotes_def)

lemma truncate_at_hash:
  "(case indexOf s CHR ''#'' of None \<Rightarrow> s | Some commentIdx \<Rightarrow> trim (slice s 0 (int commentIdx)))
     = (if CHR ''#'' \<in> set s then trim (takeWhile (\<lambda>c. c \<noteq> CHR ''#'') s) else s)"
proof (cases "indexOf s CHR ''#''")
  case None
  then have "CHR ''#'' \<notin> set s" using indexOf_None [of s "CHR ''#''"] by simp
  with None show ?thesis by simp
next
  case (Some i)
  then have "CHR ''#'' \<in> set s" using indexOf_None [of s "CHR ''#''"] by auto
  moreover have "slice s 0 (int i) = takeWhile (\<lambda>c. c \<noteq> CHR ''#'') s"
    using Some indexOf_Some_le [OF Some] by (simp add: slice_0_take indexOf_Some_take)
  ultimately show ?thesis using Some by simp
qed

text \<open>
  Claim C4, as amended: in line-oriented mode (the key token ends with \<open>:\<close> and does not
  contain \<open>://\<close>) the trimmed remainder is cut at its first \<open>#\<close>, wherever that character
  stands, and trimmed again before one pair of surrounding quotes is stripped; the value
  part that \<open>#splitKeyValue\<close> returns never holds a \<open>#\<close>.
\<close>

theorem C4_line_oriented_truncates_at_first_hash:
  "\<forall>line k v.
     matchKeyValue line = Some (k, v) \<and> endsWith k '':'' \<and> \<not> includes_str k ''://'' \<longrightarrow>
       splitKeyValue line =
         (slice k 0 (- 1),
          stripSurroundingQuotes
            (if CHR ''#'' \<in> set (trim v) then trim (takeWhile (\<lambda>c. c \<noteq> CHR ''#'') (trim v))
             else trim v),
          True)
       \<and> CHR ''#'' \<notin> set (fst (snd (splitKeyValue line)))"
proof (intro allI impI)
  fix line k v
  assume a: "matchKeyValue line = Some (k, v) \<and> endsWith k '':'' \<and> \<not> includes_str k ''://''"
  let ?r = "if CHR ''#'' \<in> set (trim v) then trim (takeWhile (\<lambda>c. c \<noteq> CHR ''#'') (trim v))
             else trim v"
  have e: "splitKeyValue line = (slice k 0 (- 1), stripSurroundingQuotes ?r, True)"
    using a by (simp add: splitKeyValue_def Let_def truncate_at_hash)
  have "CHR ''#'' \<notin> set ?r"
    using set_trim [of "takeWhile (\<lambda>c. c \<noteq> CHR ''#'') (trim v)"]
      takeWhile_no_hash [of "CHR ''#''" "trim v"] by auto
  then have "CHR ''#'' \<notin> set (stripSurroundingQuotes ?r)"
    using set_stripSurroundingQuotes [of ?r] by blast
  with e show "splitKeyValue line = (slice k 0 (- 1), stripSurroundingQuotes ?r, True)
       \<and> CHR ''#'' \<notin> set (fst (snd (splitKeyValue line)))"
    by simp
qed

theorem C4_line_oriented_witness:
  "splitKeyValue (''title: '' @ [CHR 0x22] @ ''a # b'' @ [CHR 0x22]) = (''title'', [CHR 0x22, CHR ''a''], True)
   \<and> CHR ''#'' \<notin> set (fst (snd (splitKeyValue (''title: '' @ [CHR 0x22] @ ''a # b'' @ [CHR 0x22]))))"
proof -
  have m: "matchKeyValue (''title: '' @ [CHR 0x22] @ ''a # b'' @ [CHR 0x22]) =
             Some (''title:'', [CHR 0x22] @ ''a # b'' @ [CHR 0x22])"
    by code_simp
  have h: "endsWith ''title:'' '':'' \<and> \<not> includes_str ''title:'' ''://''"
    by code_simp
  have t: "trim ([CHR 0x22] @ ''a # b'' @ [CHR 0x22]) = [CHR 0x22] @ ''a # b'' @ [CHR 0x22]"
    by code_simp
  have s: "stripSurroundingQuotes (trim (takeWhile (\<lambda>c. c \<noteq> CHR ''#'') ([CHR 0x22] @ ''a # b'' @ [CHR 0x22])))
      = [CHR 0x22, CHR ''a'']"
    by code_simp
  have k: "slice ''title:'' 0 (- 1) = ''title''" by code_simp
  from C4_line_oriented_truncates_at_first_hash [rule_format, OF conjI [OF m h]]
  show ?thesis unfolding t by (simp add: s k del: append.simps) 
qed

text \<open>
  Claim C4 as stated fails on its own example: for the line \<open>title: "a # b"\<close> the code
  cuts at the \<open>#\<close> between the quotes and yields the scalar \<open>"a\<close> (with the opening quote,
  which has lost its partner), where the cut at the first unquoted \<open>#\<close> would leave the
  remainder whole and yield \<open>a # b\<close>.
\<close>

theorem C4_quoted_hash_counterexample:
  "parse (''title: '' @ [CHR 0x22] @ ''a # b'' @ [CHR 0x22]) =
     Inr (Document [\<lparr>key = ''title'', typeAnnotation = None, val = Scalar [CHR 0x22, CHR ''a'']\<rparr>])
   \<and> stripSurroundingQuotes (trim (spec_truncateAtUnquotedHash False (trim ([CHR 0x22] @ ''a # b'' @ [CHR 0x22]))))
       = ''a # b''"
  by code_simp

subsection \<open>C5: an unterminated block\<close>






subsection \<open>C6: the error of the use directive\<close>

lemma parse_use_ok:
  "parse ''!use [ns1, ns2]'' =
     Inr (Document [\<lparr>key = ''_use'', typeAnnotation = Some ''directive'',
                     val = UseDirective [''ns1'', ''ns2'']\<rparr>])"
  by code_simp

text \<open>
  Claim C6, as amended: \<open>parse\<close> raises the error of the use directive exactly when the
  document driver arrives at a line whose trimmed text starts with \<open>!use\<close> and whose
  argument (the text after these four characters, trimmed) does not start with \<open>[\<close>;
  \<open>parse("!use [ns1, ns2]")\<close> yields the one pseudo-node \<open>_use\<close> with the type annotation
  \<open>directive\<close> and the namespaces \<open>ns1\<close>, \<open>ns2\<close>.
\<close>

theorem C6_use_directive_error:
  "(parse input = Inl useDirectiveError \<longleftrightarrow>
      (\<exists>i ns. reaches (js_split (CHR 0x0A) input) i ns \<and> i < length (js_split (CHR 0x0A) input) \<and>
              badUseLine (js_split (CHR 0x0A) input ! i)))
   \<and> parse ''!use [ns1, ns2]'' =
       Inr (Document [\<lparr>key = ''_use'', typeAnnotation = Some ''directive'',
                       val = UseDirective [''ns1'', ''ns2'']\<rparr>])"
proof (intro conjI iffI)
  assume "parse input = Inl useDirectiveError"
  then have "parseDocument_loop (js_split (CHR 0x0A) input) 0 [] = Inl useDirectiveError"
    by (simp add: parse_def parseDocument_def)
  from loop_error_only_if [OF this reaches.start]
  show "\<exists>i ns. reaches (js_split (CHR 0x0A) input) i ns \<and> i < length (js_split (CHR 0x0A) input) \<and>
              badUseLine (js_split (CHR 0x0A) input ! i)"
    using directive_errors_differ by auto
next
  assume "\<exists>i ns. reaches (js_split (CHR 0x0A) input) i ns \<and> i < length (js_split (CHR 0x0A) input) \<and>
              badUseLine (js_split (CHR 0x0A) input ! i)"
  then show "parse input = Inl useDirectiveError"
    using loop_bad_use_line by (auto simp: parse_def parseDocument_def)
qed (rule parse_use_ok)

lemma use_witness_reaches:
  "reaches (js_split (CHR 0x0A) ''a 1\<newline>!use foo'') 1 [\<lparr>key = ''a'', typeAnnotation = None, val = Scalar ''1''\<rparr>]"
proof -
  have l: "js_split (CHR 0x0A) ''a 1\<newline>!use foo'' = [''a 1'', ''!use foo'']" by code_simp
  have p: "parseLine [''a 1'', ''!use foo''] 0 = (\<lparr>key = ''a'', typeAnnotation = None, val = Scalar ''1''\<rparr>, 1)"
    by code_simp
  have c: "[''a 1'', ''!use foo''] ! 0 \<noteq> [] \<and>
      \<not> (trim ([''a 1'', ''!use foo''] ! 0) = [] \<or> startsWith (trim ([''a 1'', ''!use foo''] ! 0)) ''#'') \<and>
      \<not> startsWith (trim ([''a 1'', ''!use foo''] ! 0)) ''!use'' \<and>
      \<not> startsWith (trim ([''a 1'', ''!use foo''] ! 0)) ''!lint''"
    by code_simp
  have "reaches [''a 1'', ''!use foo''] 1 ([] @ [\<lparr>key = ''a'', typeAnnotation = None, val = Scalar ''1''\<rparr>])"
    using c p by (intro reaches.line [where i = 0]) (auto intro: reaches.start)
  then show ?thesis unfolding l by simp
qed


theorem C6_use_directive_error_witness:
  "parse ''a 1\<newline>!use foo'' = Inl useDirectiveError"
proof -
  have "1 < length (js_split (CHR 0x0A) ''a 1\<newline>!use foo'') \<and>
        badUseLine (js_split (CHR 0x0A) ''a 1\<newline>!use foo'' ! 1)"
    unfolding badUseLine_def by code_simp
  with use_witness_reaches C6_use_directive_error [of "''a 1\<newline>!use foo''", THEN conjunct1]
  show ?thesis by blast
qed

text \<open>
  Claim C6 as stated ("a directive-syntax error exactly when ... a \<open>!use\<close> line ...")
  fails: a malformed \<open>!lint\<close> line raises a directive-syntax error too, in an input with
  no \<open>!use\<close> line at all.
\<close>

theorem C6_lint_counterexample:
  "parse ''!lint foo'' = Inl lintDirectiveError
   \<and> js_split (CHR 0x0A) ''!lint foo'' = [''!lint foo'']
   \<and> \<not> startsWith (trim ''!lint foo'') ''!use''"
  unfolding lintDirectiveError_def by code_simp

subsection \<open>C7: a key assigned more than once\<close>

text \<open>
  What holds of \<open>block[k] = v\<close>: a key already in the block keeps its place and gets the
  new value, and a new key that is not an array index goes to the end.
\<close>

lemma obj_set_proto: "obj_set obj ''__proto__'' v = obj"
  by (simp add: obj_set_def)

lemma obj_set_existing_keys:
  "k \<noteq> ''__proto__'' \<Longrightarrow> k \<in> set (map fst obj) \<Longrightarrow> map fst (obj_set obj k v) = map fst obj"
  by (induction obj) (auto simp: obj_set_def)

lemma obj_set_existing_value:
  "k \<noteq> ''__proto__'' \<Longrightarrow> k \<in> set (map fst obj) \<Longrightarrow> map_of (obj_set obj k v) = (map_of obj)(k \<mapsto> v)"
proof (induction obj)
  case Nil
  then show ?case by simp
next
  case (Cons p obj)
  obtain k' v' where p: "p = (k', v')" by (cases p)
  show ?case
  proof (cases "k \<in> set (map fst obj)")
    case True
    with Cons p show ?thesis by (auto simp: obj_set_def)
  next
    case False
    then have "map (\<lambda>(k', v'). if k' = k then (k', v) else (k', v')) obj = obj"
      by (induction obj) auto
    with Cons.prems p False show ?thesis by (auto simp: obj_set_def)
  qed
qed

lemma obj_set_new_ordinary:
  "k \<noteq> ''__proto__'' \<Longrightarrow> k \<notin> set (map fst obj) \<Longrightarrow> \<not> isArrayIndex k \<Longrightarrow>
     obj_set obj k v = obj @ [(k, v)]"
  by (simp add: obj_set_def)

lemma parse_duplicate_key_example:
  "parse ''a {\<newline>b 1\<newline>c 2\<newline>b 3\<newline>}'' =
     Inr (Document [\<lparr>key = ''a'', typeAnnotation = None,
                     val = Block [(''b'', Scalar ''3''), (''c'', Scalar ''2'')]\<rparr>])"
  by code_simp


text \<open>
  Claim C7 says that a key assigned more than once in a block has exactly one entry, with
  the last value, at the position where the key first appeared. A block is a plain
  object, so this fails for two kinds of keys. In the first input the key \<open>0\<close> appears
  after \<open>b\<close> and is assigned twice; the object enumerates it before \<open>b\<close>. In the second
  the key \<open>__proto__\<close> is assigned twice and the block has no entry at all.
\<close>

theorem C7_object_key_order:
  "parse ''a {\<newline>b 1\<newline>0 x\<newline>0 y\<newline>}'' =
     Inr (Document [\<lparr>key = ''a'', typeAnnotation = None,
                     val = Block [(''0'', Scalar ''y''), (''b'', Scalar ''1'')]\<rparr>])
   \<and> up_parse ''a {\<newline>b 1\<newline>0 x\<newline>0 y\<newline>}'' =
     Document [\<lparr>key = ''a'', typeAnnotation = None,
                val = Block [(''0'', Scalar ''y''), (''b'', Scalar ''1'')]\<rparr>]
   \<and> parse ''a {\<newline>__proto__ x\<newline>__proto__ y\<newline>}'' =
     Inr (Document [\<lparr>key = ''a'', typeAnnotation = None, val = Block []\<rparr>])
   \<and> up_parse ''a {\<newline>__proto__ x\<newline>__proto__ y\<newline>}'' =
     Document [\<lparr>key = ''a'', typeAnnotation = None, val = Block []\<rparr>]"
  by code_simp

subsection \<open>C8: the annotation quoted\<close>

text \<open>
  The branch of \<open>#parseLine\<close> for the annotation \<open>quoted\<close>, and its test of the remainder:
  the remainder counts as quoted when it starts and ends with a double quote, which a
  pair of quotes around a text does, and the one-character remainder \<open>"\<close> does too.
\<close>

lemma parseLine_quoted:
  assumes "splitKeyValue (if i < length lines then lines ! i else []) = (keyPart, valPart, lineOriented)"
    and "parseKeyAndType keyPart = (k, Some ''quoted'')"
  shows "parseLine lines i =
           (\<lparr>key = k, typeAnnotation = Some ''string'',
             val = Scalar (if startsWith valPart [CHR 0x22] \<and> endsWith valPart [CHR 0x22] then valPart
                           else [CHR 0x22] @ valPart @ [CHR 0x22])\<rparr>,
            i + 1)"
  using assms by (simp add: parseLine.simps Let_def)

lemma quote_test:
  "startsWith s [CHR 0x22] \<and> endsWith s [CHR 0x22] \<longleftrightarrow>
     (length s \<ge> 2 \<and> hd s = CHR 0x22 \<and> last s = CHR 0x22) \<or> s = [CHR 0x22]"
proof (cases s rule: rev_cases)
  case Nil
  then show ?thesis by (simp add: startsWith_def endsWith_def)
next
  case (snoc ys y)
  then show ?thesis
    by (cases ys) (auto simp: startsWith_def endsWith_def)
qed

text \<open>
  Claim C8 says that the value is the remainder when that is already wrapped in a pair of
  double quotes, and otherwise the remainder with one double quote added at each end. For
  the header \<open>k!quoted "\<close> the remainder is the single character \<open>"\<close>, which is not wrapped
  in a pair of quotes; the value is that single character, not the three characters
  \<open>"""\<close>.
\<close>

theorem C8_quoted_lone_quote:
  "parse (''k!quoted '' @ [CHR 0x22]) =
     Inr (Document [\<lparr>key = ''k'', typeAnnotation = Some ''string'', val = Scalar [CHR 0x22]\<rparr>])"
  by code_simp

subsection \<open>C9: white space in an inline list\<close>

lemma parse_colors_plain:
  "parse ''colors [red, green, blue]'' =
     Inr (Document [\<lparr>key = ''colors'', typeAnnotation = None,
                     val = List [Scalar ''red'', Scalar ''green'', Scalar ''blue'']\<rparr>])"
  by code_simp

lemma parse_colors_spaced:
  "parse ''colors [ red , green , blue ]'' =
     Inr (Document [\<lparr>key = ''colors'', typeAnnotation = None,
                     val = List [Scalar ''red'', Scalar ''green'', Scalar ''blue'']\<rparr>])"
  by code_simp

lemma up_parse_colors_plain:
  "up_parse ''colors [red, green, blue]'' =
     Document [\<lparr>key = ''colors'', typeAnnotation = None,
                val = List [Scalar ''red'', Scalar ''green'', Scalar ''blue'']\<rparr>]"
  by code_simp

lemma up_parse_colors_spaced:
  "up_parse ''colors [ red , green , blue ]'' =
     Document [\<lparr>key = ''colors'', typeAnnotation = None,
                val = List [Scalar ''red'', Scalar ''green'', Scalar ''blue'']\<rparr>]"
  by code_simp

text \<open>
  In the header form delimited by white space the value part is the rest of the line as
  it is, so white space after the closing bracket keeps \<open>#parseValue\<close> from taking the
  value for an inline list; this is the dispatch, not the parsing of the list.
\<close>

lemma parse_colors_trailing_space:
  "parse ''colors [red, green, blue] '' =
     Inr (Document [\<lparr>key = ''colors'', typeAnnotation = None, val = Scalar ''[red, green, blue] ''\<rparr>])"
  by code_simp

text \<open>
  Claim C9: inline list parsing is insensitive to white space around the commas and
  around the bracketed content. In both versions of the parser the two inputs of the
  claim yield the same document, one node whose value is the list of the scalars
  \<open>red\<close>, \<open>green\<close>, \<open>blue\<close>. In general, \<open>#parseInlineList\<close> returns the same list for two
  bracketed texts whose segments between the commas are equal after trimming, whatever
  white space stands before the opening and after the closing bracket.
\<close>

theorem C9_inline_list_whitespace:
  "(parse ''colors [red, green, blue]'' = parse ''colors [ red , green , blue ]'' \<and>
    parse ''colors [red, green, blue]'' =
      Inr (Document [\<lparr>key = ''colors'', typeAnnotation = None,
                      val = List [Scalar ''red'', Scalar ''green'', Scalar ''blue'']\<rparr>]) \<and>
    up_parse ''colors [red, green, blue]'' = up_parse ''colors [ red , green , blue ]'' \<and>
    up_parse ''colors [red, green, blue]'' =
      Document [\<lparr>key = ''colors'', typeAnnotation = None,
                 val = List [Scalar ''red'', Scalar ''green'', Scalar ''blue'']\<rparr>]) \<and>
   (\<forall>segs segs' pre post pre' post'.
      segs \<noteq> [] \<and> segs' \<noteq> [] \<and> (\<forall>x \<in> set segs. CHR '','' \<notin> set x) \<and>
      (\<forall>x \<in> set segs'. CHR '','' \<notin> set x) \<and> map trim segs = map trim segs' \<and>
      list_all isWhiteSpace pre \<and> list_all isWhiteSpace post \<and>
      list_all isWhiteSpace pre' \<and> list_all isWhiteSpace post' \<longrightarrow>
      parseInlineList (pre @ ''['' @ js_join '','' segs @ '']'' @ post) =
        parseInlineList (pre' @ ''['' @ js_join '','' segs' @ '']'' @ post'))"
proof (intro conjI allI impI)
  fix segs segs' :: "string list" and pre post pre' post' :: string
  assume a: "segs \<noteq> [] \<and> segs' \<noteq> [] \<and> (\<forall>x \<in> set segs. CHR '','' \<notin> set x) \<and>
      (\<forall>x \<in> set segs'. CHR '','' \<notin> set x) \<and> map trim segs = map trim segs' \<and>
      list_all isWhiteSpace pre \<and> list_all isWhiteSpace post \<and>
      list_all isWhiteSpace pre' \<and> list_all isWhiteSpace post'"
  then have m: "map trim segs = map trim segs'" by simp
  then have l: "length segs = length segs'" by (rule map_eq_imp_length_eq)
  have h: "trim (hd segs) = trim (hd segs')"
    using a m by (cases segs; cases segs') auto
  have "map (\<lambda>x. Scalar (trim x)) segs = map Scalar (map trim segs)" by simp
  also have "\<dots> = map (\<lambda>x. Scalar (trim x)) segs'" using m by simp
  finally have "parseInlineList (''['' @ js_join '','' segs @ '']'') =
        parseInlineList (''['' @ js_join '','' segs' @ '']'')"
    using a l h by (simp add: parseInlineList_bracketed del: append.simps)
  then show "parseInlineList (pre @ ''['' @ js_join '','' segs @ '']'' @ post) =
        parseInlineList (pre' @ ''['' @ js_join '','' segs' @ '']'' @ post')"
    using a by (simp only: parseInlineList_padded)
qed (simp_all only: parse_colors_plain parse_colors_spaced up_parse_colors_plain
      up_parse_colors_spaced)

theorem C9_inline_list_whitespace_witness:
  "parseInlineList ([] @ ''['' @ js_join '','' [''red'', '' green''] @ '']'' @ []) =
     parseInlineList (''  '' @ ''['' @ js_join '','' ['' red '', '' green ''] @ '']'' @ '' '')"
proof -
  have "[''red'', '' green''] \<noteq> [] \<and> ['' red '', '' green ''] \<noteq> [] \<and>
      (\<forall>x \<in> set [''red'', '' green'']. CHR '','' \<notin> set x) \<and>
      (\<forall>x \<in> set ['' red '', '' green '']. CHR '','' \<notin> set x) \<and>
      map trim [''red'', '' green''] = map trim ['' red '', '' green ''] \<and>
      list_all isWhiteSpace [] \<and> list_all isWhiteSpace [] \<and>
      list_all isWhiteSpace ''  '' \<and> list_all isWhiteSpace '' ''"
    by (simp add: trim_def isWhiteSpace_def)
  from C9_inline_list_whitespace [THEN conjunct2, rule_format, OF this]
  show ?thesis .
qed

subsection \<open>C10: every line starting with !use is a use directive\<close>

lemma parse_use_examples:
  "parse ''!use [a, b]'' =
     Inr (Document [\<lparr>key = ''_use'', typeAnnotation = Some ''directive'',
                      val = UseDirective [''a'', ''b'']\<rparr>])"
  "parse ''!use[a]'' =
     Inr (Document [\<lparr>key = ''_use'', typeAnnotation = Some ''directive'',
                      val = UseDirective [''a'']\<rparr>])"
  "parse ''!useful things'' =
     Inl (ParseError ''!use directive requires a list: !use [namespace1, namespace2]'')"
  by code_simp+

text \<open>
  What \<open>#parseLine\<close> makes of such lines, were they given to it: a node with the empty
  key and the annotation \<open>use\<close> or \<open>useful\<close>.
\<close>

lemma parseLine_on_use_lines:
  "parseLine [''!use [a, b]''] 0 =
     (\<lparr>key = [], typeAnnotation = Some ''use'', val = List [Scalar ''a'', Scalar ''b'']\<rparr>, 1)"
  "parseLine [''!useful things''] 0 =
     (\<lparr>key = [], typeAnnotation = Some ''useful'', val = Scalar ''things''\<rparr>, 1)"
  by code_simp+

text \<open>
  Claim C10: whenever the document driver arrives at a line whose trimmed text starts with
  the four characters \<open>!use\<close> (as \<open>!useful things\<close> does), the line goes to
  \<open>#parseUseDirective\<close> and not to \<open>#parseLine\<close>. If the text after the prefix, once
  trimmed, starts with \<open>[\<close>, the result of \<open>parse\<close> is the result of the loop continued at
  the next line with the pseudo-node \<open>_use\<close> appended, so that in every document \<open>parse\<close>
  returns the node of that line is the pseudo-node \<open>_use\<close> with the namespaces of the
  list, and not the node \<open>#parseLine\<close> would have made of the line. Otherwise \<open>parse\<close>
  fails with the error of the use directive, whose message is the one thrown there and
  carries no \<open>line N:\<close> prefix. \<open>parse\<close> is evaluated on \<open>!use [a, b]\<close>, \<open>!use[a]\<close> and
  \<open>!useful things\<close>.
\<close>

theorem C10_use_prefix_routing:
  "(\<forall>lines i ns arg.
       lines = js_split (CHR 0x0A) input \<and> reaches lines i ns \<and> i < length lines \<and>
       startsWith (trim (lines ! i)) ''!use'' \<and> arg = trim (sliceFrom (trim (lines ! i)) 4) \<longrightarrow>
       (if startsWith arg ''[''
        then parse input =
               parseDocument_loop lines (i + 1)
                 (ns @ [\<lparr>key = ''_use'', typeAnnotation = Some ''directive'',
                          val = UseDirective (map js_String (parseInlineList arg))\<rparr>]) \<and>
             (\<forall>d. parse input = Inr d \<longrightarrow>
                  take (length ns + 1) (nodes d) =
                    ns @ [\<lparr>key = ''_use'', typeAnnotation = Some ''directive'',
                             val = UseDirective (map js_String (parseInlineList arg))\<rparr>])
        else parse input =
               Inl (ParseError ''!use directive requires a list: !use [namespace1, namespace2]'')))
   \<and> parse ''!use [a, b]'' =
        Inr (Document [\<lparr>key = ''_use'', typeAnnotation = Some ''directive'',
                         val = UseDirective [''a'', ''b'']\<rparr>])
   \<and> parse ''!use[a]'' =
        Inr (Document [\<lparr>key = ''_use'', typeAnnotation = Some ''directive'',
                         val = UseDirective [''a'']\<rparr>])
   \<and> parse ''!useful things'' =
        Inl (ParseError ''!use directive requires a list: !use [namespace1, namespace2]'')
   \<and> \<not> startsWith ''!use directive requires a list: !use [namespace1, namespace2]'' ''line ''"
proof (intro conjI allI impI)
  fix lines i ns arg
  assume a: "lines = js_split (CHR 0x0A) input \<and> reaches lines i ns \<and> i < length lines \<and>
       startsWith (trim (lines ! i)) ''!use'' \<and> arg = trim (sliceFrom (trim (lines ! i)) 4)"
  let ?node = "\<lparr>key = ''_use'', typeAnnotation = Some ''directive'',
                 val = UseDirective (map js_String (parseInlineList arg))\<rparr>"
  from a have l: "lines = js_split (CHR 0x0A) input" and r: "reaches lines i ns"
    and lt: "i < length lines" and u: "startsWith (trim (lines ! i)) ''!use''"
    and arg: "arg = trim (sliceFrom (trim (lines ! i)) 4)"
    by blast+
  have "parse input = parseDocument_loop lines 0 []"
    unfolding parse_def parseDocument_def l ..
  also have "\<dots> = parseDocument_loop lines i ns" using r by (rule reaches_loop)
  finally have p: "parse input = parseDocument_loop lines i ns" .
  have s: "parseDocument_loop lines i ns =
           (case parseUseDirective (trim (lines ! i)) of
              Inl e \<Rightarrow> Inl e
            | Inr node \<Rightarrow> parseDocument_loop lines (i + 1) (ns @ [node]))"
    using lt u by (rule loop_use_step)
  show "if startsWith arg ''[''
        then parse input = parseDocument_loop lines (i + 1) (ns @ [?node]) \<and>
             (\<forall>d. parse input = Inr d \<longrightarrow> take (length ns + 1) (nodes d) = ns @ [?node])
        else parse input =
               Inl (ParseError ''!use directive requires a list: !use [namespace1, namespace2]'')"
  proof (cases "startsWith arg ''[''")
    case True
    then have "parseUseDirective (trim (lines ! i)) = Inr ?node"
      using arg by (simp add: parseUseDirective_def Let_def trim_trim)
    with p s have q: "parse input = parseDocument_loop lines (i + 1) (ns @ [?node])" by simp
    have "take (length ns + 1) (nodes d) = ns @ [?node]" if "parse input = Inr d" for d
      using loop_result_prefix [of lines "i + 1" "ns @ [?node]" d] that q by simp
    with q True show ?thesis by simp
  next
    case False
    then have "parseUseDirective (trim (lines ! i)) =
        Inl (ParseError ''!use directive requires a list: !use [namespace1, namespace2]'')"
      using arg by (simp add: parseUseDirective_def Let_def trim_trim)
    with p s False show ?thesis by simp
  qed
next
  show "\<not> startsWith ''!use directive requires a list: !use [namespace1, namespace2]'' ''line ''"
    by code_simp
qed (rule parse_use_examples)+

lemma routing_witness_reaches:
  "reaches (js_split (CHR 0x0A) ''a 1\<newline>!use [x, y]\<newline>b 2'') 1
     [\<lparr>key = ''a'', typeAnnotation = None, val = Scalar ''1''\<rparr>]"
proof -
  let ?lines = "[''a 1'', ''!use [x, y]'', ''b 2'']"
  have l: "js_split (CHR 0x0A) ''a 1\<newline>!use [x, y]\<newline>b 2'' = ?lines" by code_simp
  have p: "parseLine ?lines 0 = (\<lparr>key = ''a'', typeAnnotation = None, val = Scalar ''1''\<rparr>, 1)"
    by code_simp
  have c: "?lines ! 0 \<noteq> [] \<and>
      \<not> (trim (?lines ! 0) = [] \<or> startsWith (trim (?lines ! 0)) ''#'') \<and>
      \<not> startsWith (trim (?lines ! 0)) ''!use'' \<and>
      \<not> startsWith (trim (?lines ! 0)) ''!lint''"
    by code_simp
  have "reaches ?lines 1 ([] @ [\<lparr>key = ''a'', typeAnnotation = None, val = Scalar ''1''\<rparr>])"
    using c p by (intro reaches.line [where i = 0]) (auto intro: reaches.start)
  then show ?thesis unfolding l by simp
qed

theorem C10_use_prefix_routing_witness:
  "(\<exists>d. parse ''a 1\<newline>!use [x, y]\<newline>b 2'' = Inr d \<and>
        take 2 (nodes d) =
          [\<lparr>key = ''a'', typeAnnotation = None, val = Scalar ''1''\<rparr>,
           \<lparr>key = ''_use'', typeAnnotation = Some ''directive'', val = UseDirective [''x'', ''y'']\<rparr>])
   \<and> parse ''!use [a]\<newline>  !useful things'' =
        Inl (ParseError ''!use directive requires a list: !use [namespace1, namespace2]'')"
proof
  let ?input = "''a 1\<newline>!use [x, y]\<newline>b 2''"
  let ?a = "\<lparr>key = ''a'', typeAnnotation = None, val = Scalar ''1''\<rparr>"
  have p: "parse ?input =
      Inr (Document [?a,
        \<lparr>key = ''_use'', typeAnnotation = Some ''directive'', val = UseDirective [''x'', ''y'']\<rparr>,
        \<lparr>key = ''b'', typeAnnotation = None, val = Scalar ''2''\<rparr>])"
    by code_simp
  have c: "1 < length (js_split (CHR 0x0A) ?input) \<and>
        startsWith (trim (js_split (CHR 0x0A) ?input ! 1)) ''!use'' \<and>
        startsWith (trim (sliceFrom (trim (js_split (CHR 0x0A) ?input ! 1)) 4)) ''[''"
    by code_simp
  have v: "map js_String (parseInlineList (trim (sliceFrom (trim (js_split (CHR 0x0A) ?input ! 1)) 4)))
             = [''x'', ''y'']"
    by code_simp
  from C10_use_prefix_routing [of ?input, THEN conjunct1, rule_format,
      of "js_split (CHR 0x0A) ?input" 1 "[?a]" "trim (sliceFrom (trim (js_split (CHR 0x0A) ?input ! 1)) 4)"]
    routing_witness_reaches c
  have "\<forall>d. parse ?input = Inr d \<longrightarrow>
          take (length [?a] + 1) (nodes d) =
            [?a] @ [\<lparr>key = ''_use'', typeAnnotation = Some ''directive'',
                     val = UseDirective (map js_String (parseInlineList
                        (trim (sliceFrom (trim (js_split (CHR 0x0A) ?input ! 1)) 4))))\<rparr>]"
    by simp
  with p v show "\<exists>d. parse ?input = Inr d \<and>
        take 2 (nodes d) =
          [?a, \<lparr>key = ''_use'', typeAnnotation = Some ''directive'', val = UseDirective [''x'', ''y'']\<rparr>]"
    by simp
next
  let ?input = "''!use [a]\<newline>  !useful things''"
  let ?u = "\<lparr>key = ''_use'', typeAnnotation = Some ''directive'', val = UseDirective [''a'']\<rparr>"
  have l: "js_split (CHR 0x0A) ?input = [''!use [a]'', ''  !useful things'']" by code_simp
  have c0: "[''!use [a]'', ''  !useful things''] ! 0 \<noteq> [] \<and>
      \<not> (trim ([''!use [a]'', ''  !useful things''] ! 0) = [] \<or>
           startsWith (trim ([''!use [a]'', ''  !useful things''] ! 0)) ''#'') \<and>
      startsWith (trim ([''!use [a]'', ''  !useful things''] ! 0)) ''!use'' \<and>
      parseUseDirective (trim ([''!use [a]'', ''  !useful things''] ! 0)) = Inr ?u"
    by code_simp
  have "reaches [''!use [a]'', ''  !useful things''] (0 + 1) ([] @ [?u])"
    using c0 by (intro reaches.use) (auto intro: reaches.start)
  then have r1: "reaches [''!use [a]'', ''  !useful things''] 1 [?u]" by simp
  have c1: "startsWith (trim ([''!use [a]'', ''  !useful things''] ! 1)) ''!use'' \<and>
      \<not> startsWith (trim (sliceFrom (trim ([''!use [a]'', ''  !useful things''] ! 1)) 4)) ''[''"
    by code_simp
  from C10_use_prefix_routing [of ?input, THEN conjunct1, rule_format,
      of "[''!use [a]'', ''  !useful things'']" 1 "[?u]"
         "trim (sliceFrom (trim ([''!use [a]'', ''  !useful things''] ! 1)) 4)"]
    l r1 c1
  show "parse ?input =
        Inl (ParseError ''!use directive requires a list: !use [namespace1, namespace2]'')"
    by simp
qed

end
